theory Spec2Isabelle
  imports Main
begin

section \<open>Coordinate and equivalence layer\<close>

text \<open>
  A vertex or edge is addressed by a coordinate triple: the axial coordinates
  \<open>q\<close>, \<open>r\<close> of a hex and a direction. The JavaScript objects \<open>{ q, r, dir }\<close>
  are modelled as triples \<open>(q, r, dir)\<close>; the coordinates are unbounded integers
  (the program's numbers are exact on the integers a board uses) and the
  direction is a natural number.
\<close>

type_synonym coord = "int \<times> int \<times> nat"

text \<open>
  \<open>getEquivalentVerticesLocal\<close> (the test suite's copy of the engine's vertex
  equivalence): the triple itself, followed by the two triples that the fixed
  per-direction table gives. A direction outside \<open>0..5\<close> takes no branch of the
  \<open>if\<close> chain and leaves the list with the triple alone.
\<close>

fun getEquivalentVerticesLocal :: "int \<Rightarrow> int \<Rightarrow> nat \<Rightarrow> coord list" where
  "getEquivalentVerticesLocal q r dir =
     (q, r, dir) #
     (if dir = 0 then [(q, r - 1, 2), (q + 1, r - 1, 4)]
      else if dir = 1 then [(q + 1, r - 1, 3), (q + 1, r, 5)]
      else if dir = 2 then [(q + 1, r, 4), (q, r + 1, 0)]
      else if dir = 3 then [(q, r + 1, 5), (q - 1, r + 1, 1)]
      else if dir = 4 then [(q - 1, r + 1, 0), (q - 1, r, 2)]
      else if dir = 5 then [(q - 1, r, 1), (q, r - 1, 3)]
      else [])"

definition equivalentVertices :: "coord \<Rightarrow> coord list" where
  "equivalentVertices c = (case c of (q, r, dir) \<Rightarrow> getEquivalentVerticesLocal q r dir)"

text \<open>
  Modelled from the spec: \<open>areVerticesEqual\<close> lives in the engine module, of which
  only the callers are at hand. The specification makes it the set-membership test
  built on the equivalence set.
\<close>

definition areVerticesEqual :: "coord \<Rightarrow> coord \<Rightarrow> bool" where
  "areVerticesEqual a b = (b \<in> set (equivalentVertices a))"

text \<open>
  The place of a vertex on the board. \<open>axialToPixel\<close> puts the centre of hex
  \<open>(q, r)\<close> at \<open>x = HEX_SIZE * sqrt 3 * (q + r / 2)\<close>, \<open>y = HEX_SIZE * 3 / 2 * r\<close>, and
  \<open>getVertexPosition\<close> adds \<open>HEX_SIZE * cos a\<close> to \<open>x\<close> and subtracts
  \<open>HEX_SIZE * sin a\<close> from \<open>y\<close>, where \<open>a\<close> is \<open>90 - 60 * dir\<close> degrees. Measuring
  \<open>x\<close> in units of \<open>HEX_SIZE * sqrt 3 / 2\<close> and \<open>y\<close> in units of \<open>HEX_SIZE / 2\<close>
  makes every vertex an integer point: the centre is \<open>(2 * q + r, 3 * r)\<close> and the
  six corners are offset by the table below.
\<close>

definition vertexOffsetX :: "nat \<Rightarrow> int" where
  "vertexOffsetX dir = [0, 1, 1, 0, -1, -1] ! (dir mod 6)"

definition vertexOffsetY :: "nat \<Rightarrow> int" where
  "vertexOffsetY dir = [-2, -1, 1, 2, 1, -1] ! (dir mod 6)"

definition vertexLattice :: "coord \<Rightarrow> int \<times> int" where
  "vertexLattice c =
     (case c of (q, r, dir) \<Rightarrow> (2 * q + r + vertexOffsetX dir, 3 * r + vertexOffsetY dir))"

text \<open>
  An edge of direction \<open>dir\<close> joins corner \<open>dir\<close> of its hex to corner \<open>(dir + 1) % 6\<close>:
  \<open>getEdgeEndpoints\<close> takes the two corner angles at these indices.
\<close>

definition edgeEndpoints :: "coord \<Rightarrow> coord \<times> coord" where
  "edgeEndpoints e = (case e of (q, r, dir) \<Rightarrow> ((q, r, dir), (q, r, (dir + 1) mod 6)))"

section \<open>Keys: numbers in strings\<close>

text \<open>
  The maps of the game state are keyed by strings: \<open>v_{q}_{r}_{dir}\<close> for a vertex,
  \<open>e_{q}_{r}_{dir}\<close> for an edge, \<open>{q},{r}\<close> for a hex. A template literal writes an
  integer in decimal, with a leading \<open>-\<close> when it is negative; \<open>showNat\<close> and \<open>showInt\<close>
  are that conversion (\<open>digitVal\<close> is the place of a digit in \<open>0123456789\<close>), \<open>parseDigits\<close> and \<open>parseInt\<close> read a run of digits (with an
  optional sign) back, as \<open>parseInt\<close> does on what the key pattern captures.
\<close>

definition digitChars :: string where
  "digitChars = ''0123456789''"

definition isDigit :: "char \<Rightarrow> bool" where
  "isDigit c = (c \<in> set digitChars)"

definition digitChar :: "nat \<Rightarrow> char" where
  "digitChar n = digitChars ! (n mod 10)"

definition digitVal :: "char \<Rightarrow> nat" where
  "digitVal c = length (takeWhile (\<lambda>d. d \<noteq> c) digitChars)"

fun showNat :: "nat \<Rightarrow> string" where
  "showNat n = (if n < 10 then [digitChar n] else showNat (n div 10) @ [digitChar (n mod 10)])"

definition showInt :: "int \<Rightarrow> string" where
  "showInt i = (if i < 0 then CHR ''-'' # showNat (nat (- i)) else showNat (nat i))"

definition parseDigits :: "string \<Rightarrow> nat" where
  "parseDigits ds = foldl (\<lambda>acc c. 10 * acc + digitVal c) 0 ds"

definition parseInt :: "string \<Rightarrow> int" where
  "parseInt s =
     (case s of
        [] \<Rightarrow> 0
      | c # ds \<Rightarrow> if c = CHR ''-'' then - int (parseDigits ds) else int (parseDigits s))"

definition coordKey :: "char \<Rightarrow> coord \<Rightarrow> string" where
  "coordKey pfx c =
     (case c of (q, r, dir) \<Rightarrow> pfx # ''_'' @ showInt q @ ''_'' @ showInt r @ ''_'' @ showNat dir)"

definition vertexKey :: "coord \<Rightarrow> string" where
  "vertexKey c = coordKey (CHR ''v'') c"

definition edgeKey :: "coord \<Rightarrow> string" where
  "edgeKey c = coordKey (CHR ''e'') c"

definition hexKey :: "int \<Rightarrow> int \<Rightarrow> string" where
  "hexKey q r = showInt q @ '','' @ showInt r"

section \<open>The board component: parsing keys\<close>

text \<open>
  \<open>parseVertexKey\<close> and \<open>parseEdgeKey\<close> apply the patterns
  \<open>/v_(-?\d+)_(-?\d+)_(\d+)/\<close> and \<open>/e_(-?\d+)_(-?\d+)_(\d+)/\<close> with \<open>String.match\<close>. The
  patterns carry no anchors, so \<open>match\<close> returns the leftmost place of the key where the
  pattern fits. A run \<open>\d+\<close> is greedy, and what follows it in the pattern (an underscore,
  or the end of the pattern) never fits a digit, so the greedy choice is the only one:
  \<open>matchDigits\<close> takes the longest run of digits, \<open>matchSignedInt\<close> an optional minus sign
  and such a run. \<open>matchKeyAt\<close> fits the pattern at the start of a string and returns the
  three captured groups; \<open>regexMatch\<close> tries every start from the left.
\<close>

definition matchChar :: "char \<Rightarrow> string \<Rightarrow> string option" where
  "matchChar c s = (case s of [] \<Rightarrow> None | x # t \<Rightarrow> if x = c then Some t else None)"

definition optMinus :: "string \<Rightarrow> string \<times> string" where
  "optMinus s =
     (case s of [] \<Rightarrow> ([], []) | x # t \<Rightarrow> if x = CHR ''-'' then ([x], t) else ([], s))"

definition matchDigits :: "string \<Rightarrow> (string \<times> string) option" where
  "matchDigits s =
     (if takeWhile isDigit s = [] then None
      else Some (takeWhile isDigit s, dropWhile isDigit s))"

definition matchSignedInt :: "string \<Rightarrow> (string \<times> string) option" where
  "matchSignedInt s =
     (case optMinus s of (sg, t) \<Rightarrow>
        (case matchDigits t of None \<Rightarrow> None | Some (ds, rest) \<Rightarrow> Some (sg @ ds, rest)))"

definition matchKeyAt :: "char \<Rightarrow> string \<Rightarrow> (string \<times> string \<times> string) option" where
  "matchKeyAt pfx s =
     (case matchChar pfx s of None \<Rightarrow> None | Some s1 \<Rightarrow>
      case matchChar (CHR ''_'') s1 of None \<Rightarrow> None | Some s2 \<Rightarrow>
      case matchSignedInt s2 of None \<Rightarrow> None | Some (g1, s3) \<Rightarrow>
      case matchChar (CHR ''_'') s3 of None \<Rightarrow> None | Some s4 \<Rightarrow>
      case matchSignedInt s4 of None \<Rightarrow> None | Some (g2, s5) \<Rightarrow>
      case matchChar (CHR ''_'') s5 of None \<Rightarrow> None | Some s6 \<Rightarrow>
      case matchDigits s6 of None \<Rightarrow> None | Some (g3, s7) \<Rightarrow> Some (g1, g2, g3))"

fun regexMatch :: "char \<Rightarrow> string \<Rightarrow> (string \<times> string \<times> string) option" where
  "regexMatch pfx [] = None"
| "regexMatch pfx (x # t) =
     (case matchKeyAt pfx (x # t) of Some m \<Rightarrow> Some m | None \<Rightarrow> regexMatch pfx t)"

definition parseKey :: "char \<Rightarrow> string \<Rightarrow> coord option" where
  "parseKey pfx key =
     (case regexMatch pfx key of
        None \<Rightarrow> None
      | Some (g1, g2, g3) \<Rightarrow> Some (parseInt g1, parseInt g2, parseDigits g3))"

definition parseVertexKey :: "string \<Rightarrow> coord option" where
  "parseVertexKey key = parseKey (CHR ''v'') key"

definition parseEdgeKey :: "string \<Rightarrow> coord option" where
  "parseEdgeKey key = parseKey (CHR ''e'') key"

section \<open>Game state\<close>

text \<open>
  The shapes of the state, as the test suites build and read them: a hex
  \<open>{ q, r, terrain, resource, number }\<close> (the desert has neither resource nor number), a
  vertex \<open>{ building, owner }\<close>, an edge \<open>{ road, owner }\<close>, a player with a hand
  \<open>{ brick, lumber, wool, grain, ore }\<close>, piece counts, visible and hidden victory points,
  the longest-road flag and length, and the two piles of development cards. The fields
  \<open>hex.q\<close>, \<open>hex.r\<close> are named \<open>hq\<close>, \<open>hr\<close>, the owner of an edge \<open>roadOwner\<close>, a
  player's \<open>id\<close> is \<open>playerId\<close> and the piece counts \<open>settlements\<close>, \<open>cities\<close>, \<open>roads\<close>
  are \<open>settlementPieces\<close>, \<open>cityPieces\<close>, \<open>roadPieces\<close>. An owner is a player index or
  \<open>null\<close>. The hex and edge maps are association lists in insertion order, which is the
  order \<open>Object.entries\<close> walks them in; the vertex map is only ever looked up by key.
\<close>

datatype resource = Brick | Lumber | Wool | Grain | Ore

datatype building = Settlement | City

datatype devCard = Knight | VictoryPoint | Progress string

datatype gamePhase = Setup | Playing | Finished

datatype turnPhase = Roll | Robber | Discard | Main | SpecialBuild

record resources =
  brick :: int
  lumber :: int
  wool :: int
  grain :: int
  ore :: int

record hex =
  hq :: int
  hr :: int
  terrain :: string
  resource :: "resource option"
  number :: "nat option"

record vertex =
  building :: "building option"
  owner :: "nat option"

record edge =
  road :: bool
  roadOwner :: "nat option"

record player =
  playerId :: string
  resources :: resources
  settlementPieces :: int
  cityPieces :: int
  roadPieces :: int
  victoryPoints :: int
  hiddenVictoryPoints :: int
  hasLongestRoad :: bool
  roadLength :: nat
  developmentCards :: "devCard list"
  newDevCards :: "devCard list"

record game =
  hexes :: "(string \<times> hex) list"
  vertices :: "string \<rightharpoonup> vertex"
  edges :: "(string \<times> edge) list"
  players :: "player list"
  currentPlayerIndex :: nat
  phase :: gamePhase
  turnPhase :: turnPhase
  robber :: string
  longestRoadPlayer :: "nat option"
  longestRoadLength :: nat
  hasRolledThisTurn :: bool
  devCardPlayedThisTurn :: bool
  discardingPlayers :: "nat list"


fun addResource :: "resource \<Rightarrow> int \<Rightarrow> resources \<Rightarrow> resources" where
  "addResource Brick n rs = rs\<lparr>brick := brick rs + n\<rparr>"
| "addResource Lumber n rs = rs\<lparr>lumber := lumber rs + n\<rparr>"
| "addResource Wool n rs = rs\<lparr>wool := wool rs + n\<rparr>"
| "addResource Grain n rs = rs\<lparr>grain := grain rs + n\<rparr>"
| "addResource Ore n rs = rs\<lparr>ore := ore rs + n\<rparr>"

definition creditPlayer :: "resource \<Rightarrow> int \<Rightarrow> player \<Rightarrow> player" where
  "creditPlayer res n pl = pl\<lparr>resources := addResource res n (resources pl)\<rparr>"

section \<open>Resource distribution\<close>

text \<open>
  \<open>simulateDistributeResources\<close>, the test suite's mirror of the engine's distribution.
  For every hex whose number is the roll and whose key is not the robber's, and for each
  of its six directions, the equivalent triples are probed in order for the first vertex
  that exists and carries a building (\<open>findBuildingInfo\<close>). If one is found with an
  owner, and the hex has a resource, the pair of hex key and vertex key is looked up in
  the set of credited pairs; a new pair is recorded and the owner's hand grows by 2 for
  a city and by 1 otherwise (\<open>creditBuilding\<close>). The set and the player list are threaded
  through both loops. An owner index with no player makes \<open>player.resources\<close> throw a
  \<open>TypeError\<close>, which is the result \<open>None\<close>.
\<close>

type_synonym buildingInfo = "nat option \<times> building \<times> string"

fun findBuildingInfo :: "(string \<rightharpoonup> vertex) \<Rightarrow> coord list \<Rightarrow> buildingInfo option" where
  "findBuildingInfo vs [] = None"
| "findBuildingInfo vs (eq # eqs) =
     (case vs (vertexKey eq) of
        None \<Rightarrow> findBuildingInfo vs eqs
      | Some v \<Rightarrow>
          (case building v of
             None \<Rightarrow> findBuildingInfo vs eqs
           | Some b \<Rightarrow> Some (owner v, b, vertexKey eq)))"

type_synonym distState = "string set \<times> player list"

definition creditBuilding ::
  "string \<Rightarrow> hex \<Rightarrow> buildingInfo option \<Rightarrow> distState \<Rightarrow> distState option" where
  "creditBuilding hKey h info st =
     (case info of
        None \<Rightarrow> Some st
      | Some (own, ty, vKey) \<Rightarrow>
          (case own of
             None \<Rightarrow> Some st
           | Some p \<Rightarrow>
               (case resource h of
                  None \<Rightarrow> Some st
                | Some res \<Rightarrow>
                    if hKey @ '','' @ vKey \<in> fst st then Some st
                    else if p < length (snd st)
                    then Some (insert (hKey @ '','' @ vKey) (fst st),
                               (snd st)[p := creditPlayer res (if ty = City then 2 else 1) (snd st ! p)])
                    else None)))"









section \<open>The test suites' placement helpers\<close>

text \<open>
  \<open>placeRoadDirectly\<close> and \<open>placeSettlementDirectly\<close> (\<open>placeRoad\<close> and \<open>placeSettlement\<close> in
  the second suite) write an entry straight into the map and adjust the player's counts,
  with no rule checked. Assigning to a key of an object replaces the value of a key that
  is there and appends a new key after the others (\<open>setEntry\<close>). A player index with no
  player makes the helper throw after the map is written; that is the result \<open>None\<close>.
\<close>

fun setEntry :: "'k \<Rightarrow> 'v \<Rightarrow> ('k \<times> 'v) list \<Rightarrow> ('k \<times> 'v) list" where
  "setEntry k v [] = [(k, v)]"
| "setEntry k v ((k', v') # rest) =
     (if k' = k then (k, v) # rest else (k', v') # setEntry k v rest)"

definition placeRoadDirectly :: "game \<Rightarrow> nat \<Rightarrow> string \<Rightarrow> game option" where
  "placeRoadDirectly g playerIndex eKey =
     (if playerIndex < length (players g)
      then Some (g\<lparr>edges := setEntry eKey \<lparr>road = True, roadOwner = Some playerIndex\<rparr> (edges g),
                   players := (players g)[playerIndex := (players g ! playerIndex)
                      \<lparr>roadPieces := roadPieces (players g ! playerIndex) - 1\<rparr>]\<rparr>)
      else None)"

definition placeSettlementDirectly :: "game \<Rightarrow> nat \<Rightarrow> string \<Rightarrow> game option" where
  "placeSettlementDirectly g playerIndex vKey =
     (if playerIndex < length (players g)
      then Some (g\<lparr>vertices := (vertices g)(vKey \<mapsto> \<lparr>building = Some Settlement, owner = Some playerIndex\<rparr>),
                   players := (players g)[playerIndex := (players g ! playerIndex)
                      \<lparr>settlementPieces := settlementPieces (players g ! playerIndex) - 1,
                       victoryPoints := victoryPoints (players g ! playerIndex) + 1\<rparr>]\<rparr>)
      else None)"

section \<open>The board component: roads, clickable edges and vertices\<close>

text \<open>
  The three lists that \<open>HexBoard\<close> derives from the edge and vertex maps it is handed.
  Pixel positions are floating-point numbers, so the geometry is a parameter of the model:
  \<open>getEdgeEndpoints\<close> gives the two end points of a parsed edge, \<open>edgePosKey\<close> stands for
  the sorted and joined pair of their \<open>posKey\<close>s, \<open>getVertexPosition\<close> gives the point of
  a parsed vertex and \<open>posKey\<close> its rounded key. Every entry of a map is an object of the
  state's shape; the keys are arbitrary strings.

  \<open>roads\<close> pushes one item per entry that carries a road and whose key parses.
\<close>

fun roads ::
  "(coord \<Rightarrow> 'pos \<times> 'pos) \<Rightarrow> (string \<times> edge) list \<Rightarrow> (string \<times> nat option \<times> 'pos \<times> 'pos) list" where
  "roads getEdgeEndpoints [] = []"
| "roads getEdgeEndpoints ((key, e) # rest) =
     (if \<not> road e then roads getEdgeEndpoints rest
      else case parseEdgeKey key of
             None \<Rightarrow> roads getEdgeEndpoints rest
           | Some parsed \<Rightarrow>
               (key, roadOwner e, fst (getEdgeEndpoints parsed), snd (getEdgeEndpoints parsed))
                 # roads getEdgeEndpoints rest)"

text \<open>
  \<open>clickableEdges\<close> first collects the position keys of the entries that carry a road,
  then walks the entries again and pushes the first entry of every position that has no
  road.
\<close>

fun roadPositions ::
  "(coord \<Rightarrow> 'pos \<times> 'pos) \<Rightarrow> ('pos \<Rightarrow> 'pos \<Rightarrow> 'k) \<Rightarrow> (string \<times> edge) list \<Rightarrow> 'k set" where
  "roadPositions getEdgeEndpoints edgePosKey [] = {}"
| "roadPositions getEdgeEndpoints edgePosKey ((key, e) # rest) =
     (if \<not> road e then roadPositions getEdgeEndpoints edgePosKey rest
      else case parseEdgeKey key of
             None \<Rightarrow> roadPositions getEdgeEndpoints edgePosKey rest
           | Some parsed \<Rightarrow>
               insert (edgePosKey (fst (getEdgeEndpoints parsed)) (snd (getEdgeEndpoints parsed)))
                 (roadPositions getEdgeEndpoints edgePosKey rest))"

fun clickableLoop ::
  "(coord \<Rightarrow> 'pos \<times> 'pos) \<Rightarrow> ('pos \<Rightarrow> 'pos \<Rightarrow> 'k) \<Rightarrow> 'k set \<Rightarrow> 'k set \<Rightarrow> (string \<times> edge) list
     \<Rightarrow> (string \<times> 'pos \<times> 'pos) list" where
  "clickableLoop getEdgeEndpoints edgePosKey roadPos seenPositions [] = []"
| "clickableLoop getEdgeEndpoints edgePosKey roadPos seenPositions ((key, e) # rest) =
     (case parseEdgeKey key of
        None \<Rightarrow> clickableLoop getEdgeEndpoints edgePosKey roadPos seenPositions rest
      | Some parsed \<Rightarrow>
          (let v1 = fst (getEdgeEndpoints parsed); v2 = snd (getEdgeEndpoints parsed);
               pk = edgePosKey v1 v2
           in if pk \<in> roadPos
              then clickableLoop getEdgeEndpoints edgePosKey roadPos seenPositions rest
              else if pk \<in> seenPositions
              then clickableLoop getEdgeEndpoints edgePosKey roadPos seenPositions rest
              else (key, v1, v2)
                     # clickableLoop getEdgeEndpoints edgePosKey roadPos (insert pk seenPositions) rest))"

definition clickableEdges ::
  "(coord \<Rightarrow> 'pos \<times> 'pos) \<Rightarrow> ('pos \<Rightarrow> 'pos \<Rightarrow> 'k) \<Rightarrow> (string \<times> edge) list
     \<Rightarrow> (string \<times> 'pos \<times> 'pos) list" where
  "clickableEdges getEdgeEndpoints edgePosKey es =
     clickableLoop getEdgeEndpoints edgePosKey
       (roadPositions getEdgeEndpoints edgePosKey es) {} es"

text \<open>
  \<open>uniqueVertices\<close> keeps one item per position: the first entry seen there, replaced by a
  later entry of the same position when that one has a building and the kept one has none.
  An entry is passed over when its key does not parse or when the hex map has nothing
  under \<open>{q},{r}\<close>. \<open>findIndex\<close> is the array method: the first index whose element
  satisfies the test, \<open>None\<close> for \<open>-1\<close>.
\<close>

type_synonym 'pos vertexItem = "string \<times> vertex \<times> 'pos \<times> coord"

fun findIndex :: "('a \<Rightarrow> bool) \<Rightarrow> 'a list \<Rightarrow> nat option" where
  "findIndex P [] = None"
| "findIndex P (x # xs) =
     (if P x then Some 0 else (case findIndex P xs of None \<Rightarrow> None | Some i \<Rightarrow> Some (Suc i)))"

definition uniqueStep ::
  "(coord \<Rightarrow> 'pos) \<Rightarrow> ('pos \<Rightarrow> 'k) \<Rightarrow> (string \<rightharpoonup> hex) \<Rightarrow> string \<times> vertex
     \<Rightarrow> ('k \<rightharpoonup> 'pos vertexItem) \<times> 'pos vertexItem list
     \<Rightarrow> ('k \<rightharpoonup> 'pos vertexItem) \<times> 'pos vertexItem list" where
  "uniqueStep getVertexPosition posKey hs entry st =
     (case entry of (key, v) \<Rightarrow>
      case st of (seen, result) \<Rightarrow>
      case parseVertexKey key of
        None \<Rightarrow> (seen, result)
      | Some parsed \<Rightarrow>
          if hs (hexKey (fst parsed) (fst (snd parsed))) = None then (seen, result)
          else
            (let pos = getVertexPosition parsed; pk = posKey pos in
             case seen pk of
               None \<Rightarrow> (seen(pk \<mapsto> (key, v, pos, parsed)), result @ [(key, v, pos, parsed)])
             | Some existing \<Rightarrow>
                 if building v \<noteq> None \<and> building (fst (snd existing)) = None
                 then (case findIndex (\<lambda>r. fst r = fst existing) result of
                         None \<Rightarrow> (seen, result)
                       | Some idx \<Rightarrow>
                           (seen(pk \<mapsto> (key, v, pos, parsed)),
                            result[idx := (key, v, pos, parsed)]))
                 else (seen, result)))"

fun uniqueLoop ::
  "(coord \<Rightarrow> 'pos) \<Rightarrow> ('pos \<Rightarrow> 'k) \<Rightarrow> (string \<rightharpoonup> hex) \<Rightarrow> (string \<times> vertex) list
     \<Rightarrow> ('k \<rightharpoonup> 'pos vertexItem) \<times> 'pos vertexItem list
     \<Rightarrow> ('k \<rightharpoonup> 'pos vertexItem) \<times> 'pos vertexItem list" where
  "uniqueLoop getVertexPosition posKey hs [] st = st"
| "uniqueLoop getVertexPosition posKey hs (entry # rest) st =
     uniqueLoop getVertexPosition posKey hs rest (uniqueStep getVertexPosition posKey hs entry st)"

definition uniqueVertices ::
  "(coord \<Rightarrow> 'pos) \<Rightarrow> ('pos \<Rightarrow> 'k) \<Rightarrow> (string \<rightharpoonup> hex) \<Rightarrow> (string \<times> vertex) list
     \<Rightarrow> 'pos vertexItem list" where
  "uniqueVertices getVertexPosition posKey hs vs =
     snd (uniqueLoop getVertexPosition posKey hs vs (Map.empty, []))"

text \<open>
  Two readings of "the key has the format". \<open>wellFormedKey\<close>: the key is, character for
  character, what the template writes for some triple. \<open>containsKeyPattern\<close>: somewhere in
  the key stands the prefix letter, an underscore, an optionally signed run of digits, an
  underscore, another such run, an underscore and a run of digits.
\<close>

definition wellFormedKey :: "char \<Rightarrow> string \<Rightarrow> bool" where
  "wellFormedKey pfx key =
     (case parseKey pfx key of None \<Rightarrow> False | Some c \<Rightarrow> coordKey pfx c = key)"

definition digitRun :: "string \<Rightarrow> bool" where
  "digitRun ds \<longleftrightarrow> ds \<noteq> [] \<and> (list_all isDigit ds)"

definition signedRun :: "string \<Rightarrow> bool" where
  "signedRun s \<longleftrightarrow> digitRun s \<or> (\<exists>ds. s = CHR ''-'' # ds \<and> digitRun ds)"

definition containsKeyPattern :: "char \<Rightarrow> string \<Rightarrow> bool" where
  "containsKeyPattern pfx key \<longleftrightarrow>
     (\<exists>pre g1 g2 g3 post. key = pre @ pfx # ''_'' @ g1 @ ''_'' @ g2 @ ''_'' @ g3 @ post
        \<and> signedRun g1 \<and> signedRun g2 \<and> digitRun g3)"

section \<open>The board component with its failing reads\<close>

text \<open>
  The same computations with the one way in which they could fail on a key written out.
  Reading a property of \<open>null\<close> throws a \<open>TypeError\<close>; \<open>readObject\<close> is that read, of a
  value that may be \<open>null\<close>. The source reads \<open>match[1]\<close>, \<open>match[2]\<close>, \<open>match[3]\<close> after
  \<open>if (!match) return null\<close>, reads \<open>parsed.q\<close>, \<open>parsed.r\<close>, \<open>parsed.dir\<close> after
  \<open>if (!parsed) return\<close>, and reads \<open>existing.vertex\<close> in the branch where \<open>seen.has(pk)\<close>
  holds. Each of these reads is a \<open>readObject\<close> below, at the place where the source has
  it, behind the test the source makes. An error thrown in a \<open>forEach\<close> callback ends the
  loop and the computation: \<open>Inl\<close> is handed up. The entries of the maps are objects of
  the state's shape, so \<open>edge.road\<close>, \<open>edge.owner\<close> and \<open>vertex.building\<close> are plain reads;
  \<open>String.match\<close>, \<open>parseInt\<close>, the set and map methods, \<open>findIndex\<close> and the assignment
  to \<open>result[idx]\<close> do not throw.
\<close>

datatype error = TypeError

definition readObject :: "'a option \<Rightarrow> error + 'a" where
  "readObject obj = (case obj of None \<Rightarrow> Inl TypeError | Some x \<Rightarrow> Inr x)"

definition parseKeyChecked :: "char \<Rightarrow> string \<Rightarrow> error + coord option" where
  "parseKeyChecked pfx key =
     (let m = regexMatch pfx key in
      if m = None then Inr None
      else case readObject m of
             Inl err \<Rightarrow> Inl err
           | Inr (g1, g2, g3) \<Rightarrow> Inr (Some (parseInt g1, parseInt g2, parseDigits g3)))"

definition parseVertexKeyChecked :: "string \<Rightarrow> error + coord option" where
  "parseVertexKeyChecked key = parseKeyChecked (CHR ''v'') key"

definition parseEdgeKeyChecked :: "string \<Rightarrow> error + coord option" where
  "parseEdgeKeyChecked key = parseKeyChecked (CHR ''e'') key"

fun roadsChecked ::
  "(coord \<Rightarrow> 'pos \<times> 'pos) \<Rightarrow> (string \<times> edge) list
     \<Rightarrow> error + (string \<times> nat option \<times> 'pos \<times> 'pos) list" where
  "roadsChecked getEdgeEndpoints [] = Inr []"
| "roadsChecked getEdgeEndpoints ((key, e) # rest) =
     (if \<not> road e then roadsChecked getEdgeEndpoints rest
      else case parseEdgeKeyChecked key of
             Inl err \<Rightarrow> Inl err
           | Inr parsed \<Rightarrow>
               if parsed = None then roadsChecked getEdgeEndpoints rest
               else case readObject parsed of
                      Inl err \<Rightarrow> Inl err
                    | Inr c \<Rightarrow>
                        (case roadsChecked getEdgeEndpoints rest of
                           Inl err \<Rightarrow> Inl err
                         | Inr roadList \<Rightarrow>
                             Inr ((key, roadOwner e, fst (getEdgeEndpoints c), snd (getEdgeEndpoints c))
                                    # roadList)))"

fun roadPositionsChecked ::
  "(coord \<Rightarrow> 'pos \<times> 'pos) \<Rightarrow> ('pos \<Rightarrow> 'pos \<Rightarrow> 'k) \<Rightarrow> (string \<times> edge) list \<Rightarrow> error + 'k set" where
  "roadPositionsChecked getEdgeEndpoints edgePosKey [] = Inr {}"
| "roadPositionsChecked getEdgeEndpoints edgePosKey ((key, e) # rest) =
     (if \<not> road e then roadPositionsChecked getEdgeEndpoints edgePosKey rest
      else case parseEdgeKeyChecked key of
             Inl err \<Rightarrow> Inl err
           | Inr parsed \<Rightarrow>
               if parsed = None then roadPositionsChecked getEdgeEndpoints edgePosKey rest
               else case readObject parsed of
                      Inl err \<Rightarrow> Inl err
                    | Inr c \<Rightarrow>
                        (case roadPositionsChecked getEdgeEndpoints edgePosKey rest of
                           Inl err \<Rightarrow> Inl err
                         | Inr positions \<Rightarrow>
                             Inr (insert (edgePosKey (fst (getEdgeEndpoints c)) (snd (getEdgeEndpoints c)))
                                    positions)))"

fun clickableLoopChecked ::
  "(coord \<Rightarrow> 'pos \<times> 'pos) \<Rightarrow> ('pos \<Rightarrow> 'pos \<Rightarrow> 'k) \<Rightarrow> 'k set \<Rightarrow> 'k set \<Rightarrow> (string \<times> edge) list
     \<Rightarrow> error + (string \<times> 'pos \<times> 'pos) list" where
  "clickableLoopChecked getEdgeEndpoints edgePosKey roadPos seenPositions [] = Inr []"
| "clickableLoopChecked getEdgeEndpoints edgePosKey roadPos seenPositions ((key, e) # rest) =
     (case parseEdgeKeyChecked key of
        Inl err \<Rightarrow> Inl err
      | Inr parsed \<Rightarrow>
          if parsed = None
          then clickableLoopChecked getEdgeEndpoints edgePosKey roadPos seenPositions rest
          else case readObject parsed of
                 Inl err \<Rightarrow> Inl err
               | Inr c \<Rightarrow>
                   (let v1 = fst (getEdgeEndpoints c); v2 = snd (getEdgeEndpoints c);
                        pk = edgePosKey v1 v2
                    in if pk \<in> roadPos
                       then clickableLoopChecked getEdgeEndpoints edgePosKey roadPos seenPositions rest
                       else if pk \<in> seenPositions
                       then clickableLoopChecked getEdgeEndpoints edgePosKey roadPos seenPositions rest
                       else (case clickableLoopChecked getEdgeEndpoints edgePosKey roadPos
                                    (insert pk seenPositions) rest of
                               Inl err \<Rightarrow> Inl err
                             | Inr edgeList \<Rightarrow> Inr ((key, v1, v2) # edgeList))))"

definition clickableEdgesChecked ::
  "(coord \<Rightarrow> 'pos \<times> 'pos) \<Rightarrow> ('pos \<Rightarrow> 'pos \<Rightarrow> 'k) \<Rightarrow> (string \<times> edge) list
     \<Rightarrow> error + (string \<times> 'pos \<times> 'pos) list" where
  "clickableEdgesChecked getEdgeEndpoints edgePosKey es =
     (case roadPositionsChecked getEdgeEndpoints edgePosKey es of
        Inl err \<Rightarrow> Inl err
      | Inr roadPos \<Rightarrow> clickableLoopChecked getEdgeEndpoints edgePosKey roadPos {} es)"

definition uniqueStepChecked ::
  "(coord \<Rightarrow> 'pos) \<Rightarrow> ('pos \<Rightarrow> 'k) \<Rightarrow> (string \<rightharpoonup> hex) \<Rightarrow> string \<times> vertex
     \<Rightarrow> ('k \<rightharpoonup> 'pos vertexItem) \<times> 'pos vertexItem list
     \<Rightarrow> error + ('k \<rightharpoonup> 'pos vertexItem) \<times> 'pos vertexItem list" where
  "uniqueStepChecked getVertexPosition posKey hs entry st =
     (case entry of (key, v) \<Rightarrow>
      case st of (seen, result) \<Rightarrow>
      case parseVertexKeyChecked key of
        Inl err \<Rightarrow> Inl err
      | Inr parsed \<Rightarrow>
          if parsed = None then Inr (seen, result)
          else case readObject parsed of
                 Inl err \<Rightarrow> Inl err
               | Inr c \<Rightarrow>
                   if hs (hexKey (fst c) (fst (snd c))) = None then Inr (seen, result)
                   else
                     (let pos = getVertexPosition c; pk = posKey pos in
                      if seen pk = None
                      then Inr (seen(pk \<mapsto> (key, v, pos, c)), result @ [(key, v, pos, c)])
                      else case readObject (seen pk) of
                             Inl err \<Rightarrow> Inl err
                           | Inr existing \<Rightarrow>
                               if building v \<noteq> None \<and> building (fst (snd existing)) = None
                               then (case findIndex (\<lambda>r. fst r = fst existing) result of
                                       None \<Rightarrow> Inr (seen, result)
                                     | Some idx \<Rightarrow>
                                         Inr (seen(pk \<mapsto> (key, v, pos, c)),
                                              result[idx := (key, v, pos, c)]))
                               else Inr (seen, result)))"

fun uniqueLoopChecked ::
  "(coord \<Rightarrow> 'pos) \<Rightarrow> ('pos \<Rightarrow> 'k) \<Rightarrow> (string \<rightharpoonup> hex) \<Rightarrow> (string \<times> vertex) list
     \<Rightarrow> ('k \<rightharpoonup> 'pos vertexItem) \<times> 'pos vertexItem list
     \<Rightarrow> error + ('k \<rightharpoonup> 'pos vertexItem) \<times> 'pos vertexItem list" where
  "uniqueLoopChecked getVertexPosition posKey hs [] st = Inr st"
| "uniqueLoopChecked getVertexPosition posKey hs (entry # rest) st =
     (case uniqueStepChecked getVertexPosition posKey hs entry st of
        Inl err \<Rightarrow> Inl err
      | Inr st' \<Rightarrow> uniqueLoopChecked getVertexPosition posKey hs rest st')"

definition uniqueVerticesChecked ::
  "(coord \<Rightarrow> 'pos) \<Rightarrow> ('pos \<Rightarrow> 'k) \<Rightarrow> (string \<rightharpoonup> hex) \<Rightarrow> (string \<times> vertex) list
     \<Rightarrow> error + 'pos vertexItem list" where
  "uniqueVerticesChecked getVertexPosition posKey hs vs =
     (case uniqueLoopChecked getVertexPosition posKey hs vs (Map.empty, []) of
        Inl err \<Rightarrow> Inl err
      | Inr st \<Rightarrow> Inr (snd st))"

section \<open>Longest road engine\<close>

text \<open>
  Modelled from the spec: the engine module \<open>gameLogic.js\<close> (with \<open>updateLongestRoad\<close>, the
  action functions and \<open>getPlayerView\<close>) is not among the sources at hand, only the test
  suites that call it are. This section and the next follow the specification's words.

  The graph of a player: its nodes are physical vertices, each named by one triple of its
  equivalence set (the one of least direction); its edges are the player's roads, each
  joining corner \<open>dir\<close> to corner \<open>dir + 1\<close> of its hex, one edge per physical road
  whichever key and way round it is stored. The roads are the entries of the edge map
  that carry a road of the player; their keys are read with the key pattern.
\<close>

definition canonicalVertex :: "coord \<Rightarrow> coord" where
  "canonicalVertex c =
     fold (\<lambda>x best. if snd (snd x) < snd (snd best) then x else best) (equivalentVertices c) c"

definition physicalEdge :: "coord \<Rightarrow> coord \<times> coord" where
  "physicalEdge e =
     (canonicalVertex (fst (edgeEndpoints e)), canonicalVertex (snd (edgeEndpoints e)))"

definition sameEdge :: "'v \<times> 'v \<Rightarrow> 'v \<times> 'v \<Rightarrow> bool" where
  "sameEdge e e' \<longleftrightarrow> e = e' \<or> e = (snd e', fst e')"

definition areEdgesEqual :: "coord \<Rightarrow> coord \<Rightarrow> bool" where
  "areEdgesEqual a b = sameEdge (physicalEdge a) (physicalEdge b)"

fun dedupEdges :: "('v \<times> 'v) list \<Rightarrow> ('v \<times> 'v) list" where
  "dedupEdges [] = []"
| "dedupEdges (e # es) =
     (if list_ex (sameEdge e) es then dedupEdges es else e # dedupEdges es)"

definition playerRoads :: "game \<Rightarrow> nat \<Rightarrow> coord list" where
  "playerRoads g p =
     List.map_filter
       (\<lambda>(key, e). if road e \<and> roadOwner e = Some p then parseEdgeKey key else None)
       (edges g)"

definition roadNetwork :: "game \<Rightarrow> nat \<Rightarrow> (coord \<times> coord) list" where
  "roadNetwork g p = dedupEdges (map physicalEdge (playerRoads g p))"

text \<open>
  A vertex blocks the road of player \<open>p\<close> when a building of another player stands on it,
  under any of its equivalent keys.
\<close>

definition opponentAt :: "(string \<rightharpoonup> vertex) \<Rightarrow> nat \<Rightarrow> coord \<Rightarrow> bool" where
  "opponentAt vs p v =
     (case findBuildingInfo vs (equivalentVertices v) of
        None \<Rightarrow> False
      | Some (own, ty, key) \<Rightarrow> (case own of None \<Rightarrow> False | Some other \<Rightarrow> other \<noteq> p))"

text \<open>
  The search: depth first from every vertex that has a road, at each step along an edge
  not used yet, counting the edges walked. A path does not go on through a vertex that
  an opponent occupies; it may start and it may end there. \<open>extendPath blocked unused v\<close>
  is the greatest number of edges that a path can still add from \<open>v\<close>.
\<close>

definition incident :: "'v \<times> 'v \<Rightarrow> 'v \<Rightarrow> bool" where
  "incident e v \<longleftrightarrow> fst e = v \<or> snd e = v"

definition otherEnd :: "'v \<times> 'v \<Rightarrow> 'v \<Rightarrow> 'v" where
  "otherEnd e v = (if fst e = v then snd e else fst e)"

fun maxList :: "nat list \<Rightarrow> nat" where
  "maxList [] = 0"
| "maxList (x # xs) = max x (maxList xs)"

function extendPath :: "('v \<Rightarrow> bool) \<Rightarrow> ('v \<times> 'v) list \<Rightarrow> 'v \<Rightarrow> nat" where
  "extendPath blocked unused v =
     maxList (map (\<lambda>e. Suc (if blocked (otherEnd e v) then 0
                             else extendPath blocked (remove1 e unused) (otherEnd e v)))
                  (filter (\<lambda>e. incident e v) unused))"
  by pat_completeness auto
termination
  by (relation "measure (\<lambda>(blocked, unused, v). length unused)")
     (auto simp: length_remove1 dest!: length_pos_if_in_set)

definition graphNodes :: "('v \<times> 'v) list \<Rightarrow> 'v list" where
  "graphNodes es = remdups (concat (map (\<lambda>e. [fst e, snd e]) es))"

definition longestPath :: "('v \<Rightarrow> bool) \<Rightarrow> ('v \<times> 'v) list \<Rightarrow> nat" where
  "longestPath blocked es = maxList (map (extendPath blocked es) (graphNodes es))"

definition playerRoadLength :: "game \<Rightarrow> nat \<Rightarrow> nat" where
  "playerRoadLength g p = longestPath (opponentAt (vertices g) p) (roadNetwork g p)"

text \<open>
  The award. The holder keeps the bonus while the holder's length is at least 5 and no
  length is greater; otherwise the bonus goes to the player whose length is strictly the
  greatest, if that length is at least 5, and to nobody if there is no such player.
\<close>

definition strictlyLongest :: "nat list \<Rightarrow> nat option" where
  "strictlyLongest lens =
     (case filter (\<lambda>i. lens ! i = maxList lens) [0..<length lens] of
        [i] \<Rightarrow> Some i
      | _ \<Rightarrow> None)"

definition challenger :: "nat list \<Rightarrow> nat option" where
  "challenger lens =
     (case strictlyLongest lens of
        None \<Rightarrow> None
      | Some p \<Rightarrow> if 5 \<le> lens ! p then Some p else None)"

definition awardLongestRoad :: "nat list \<Rightarrow> nat option \<Rightarrow> nat option" where
  "awardLongestRoad lens holder =
     (case holder of
        None \<Rightarrow> challenger lens
      | Some h \<Rightarrow>
          if h < length lens \<and> 5 \<le> lens ! h \<and> lens ! h = maxList lens then Some h
          else challenger lens)"

text \<open>
  \<open>updateLongestRoad\<close> stores every player's length, applies the award, sets the flags and
  moves the two victory points of the bonus. The specification does not say what
  \<open>longestRoadLength\<close> is without a holder; it is 0 here.
\<close>

definition recomputeRoadLengths :: "game \<Rightarrow> player list" where
  "recomputeRoadLengths g =
     map (\<lambda>(i, pl). pl\<lparr>roadLength := playerRoadLength g i\<rparr>) (enumerate 0 (players g))"

definition setLongestRoadBonus :: "nat option \<Rightarrow> nat option \<Rightarrow> player list \<Rightarrow> player list" where
  "setLongestRoadBonus old new ps =
     map (\<lambda>(i, pl). pl\<lparr>hasLongestRoad := (new = Some i),
                       victoryPoints := victoryPoints pl
                         + (if new = Some i \<and> old \<noteq> Some i then 2
                            else if old = Some i \<and> new \<noteq> Some i then - 2 else 0)\<rparr>)
         (enumerate 0 ps)"

definition updateLongestRoad :: "game \<Rightarrow> game" where
  "updateLongestRoad g =
     (let ps = recomputeRoadLengths g;
          lens = map roadLength ps;
          new = awardLongestRoad lens (longestRoadPlayer g)
      in g\<lparr>players := setLongestRoadBonus (longestRoadPlayer g) new ps,
           longestRoadPlayer := new,
           longestRoadLength := (case new of None \<Rightarrow> 0 | Some h \<Rightarrow> lens ! h)\<rparr>)"

text \<open>The length that \<open>updateLongestRoad\<close> has stored for a player.\<close>

definition lengthAfter :: "game \<Rightarrow> nat \<Rightarrow> nat" where
  "lengthAfter g i = roadLength (players (updateLongestRoad g) ! i)"

text \<open>
  Shapes of road networks, for the statements about them. \<open>adjacentPairs vs\<close> are the
  consecutive pairs of a node list; \<open>edgesAlong es vs\<close> says that the edges are the roads between
  consecutive nodes of \<open>vs\<close> and no others, each whichever way round; \<open>noDuplicateEdge\<close>
  says that no road occurs twice. \<open>walkLen blocked ws\<close> is the number of steps of a walk along
  \<open>ws\<close> that stops on the first occupied node.
\<close>

definition adjacentPairs :: "'v list \<Rightarrow> ('v \<times> 'v) list" where
  "adjacentPairs vs = zip vs (tl vs)"

fun walkLen :: "('v \<Rightarrow> bool) \<Rightarrow> 'v list \<Rightarrow> nat" where
  "walkLen blocked [] = 0"
| "walkLen blocked (w # ws) = Suc (if blocked w then 0 else walkLen blocked ws)"

definition noDuplicateEdge :: "('v \<times> 'v) list \<Rightarrow> bool" where
  "noDuplicateEdge es \<longleftrightarrow> distinct es \<and> (\<forall>x \<in> set es. \<forall>y \<in> set es. sameEdge x y \<longrightarrow> x = y)"

definition edgesAlong :: "('v \<times> 'v) list \<Rightarrow> 'v list \<Rightarrow> bool" where
  "edgesAlong es vs \<longleftrightarrow>
     (\<forall>e \<in> set es. \<exists>p \<in> set (adjacentPairs vs). sameEdge e p)
     \<and> (\<forall>p \<in> set (adjacentPairs vs). \<exists>e \<in> set es. sameEdge e p)"

section \<open>Example states\<close>


definition newPlayer :: "string \<Rightarrow> player" where
  "newPlayer pid =
     \<lparr>playerId = pid, resources = \<lparr>brick = 0, lumber = 0, wool = 0, grain = 0, ore = 0\<rparr>,
      settlementPieces = 5, cityPieces = 4, roadPieces = 15, victoryPoints = 0,
      hiddenVictoryPoints = 0, hasLongestRoad = False, roadLength = 0,
      developmentCards = [], newDevCards = []\<rparr>"




text \<open>Two players and their roads: player 0 has the five roads \<open>e_0_0_0\<close> to \<open>e_0_0_4\<close>,
  player 1 the first \<open>k\<close> roads around the hex \<open>(3, 0)\<close>; \<open>holder\<close> has the bonus.\<close>

definition roadOf :: "nat \<Rightarrow> edge" where
  "roadOf p = \<lparr>road = True, roadOwner = Some p\<rparr>"

definition roadRace :: "nat option \<Rightarrow> nat \<Rightarrow> game" where
  "roadRace holder k =
     \<lparr>hexes = [], vertices = Map.empty,
      edges = map (\<lambda>d. (edgeKey (0, 0, d), roadOf 0)) [0..<5]
              @ map (\<lambda>d. (edgeKey (3, 0, d), roadOf 1)) [0..<k],
      players = [newPlayer ''p1'', newPlayer ''p2''], currentPlayerIndex = 0,
      phase = Playing, turnPhase = Main, robber = ''0,0'', longestRoadPlayer = holder,
      longestRoadLength = 0, hasRolledThisTurn = False, devCardPlayedThisTurn = False,
      discardingPlayers = []\<rparr>"

declare getEquivalentVerticesLocal.simps [simp del]
declare showNat.simps [simp del]
declare extendPath.simps [simp del]

section \<open>Keys are read back as they were written\<close>

lemma below_ten_cases:
  "(m::nat) < 10 \<Longrightarrow> m = 0 \<or> m = 1 \<or> m = 2 \<or> m = 3 \<or> m = 4 \<or> m = 5 \<or> m = 6 \<or> m = 7 \<or> m = 8 \<or> m = 9"
  by arith

lemma digitVal_nth: "m < 10 \<Longrightarrow> digitVal (digitChars ! m) = m"
  by (drule below_ten_cases) (elim disjE; simp add: digitChars_def digitVal_def)

lemma digitVal_digitChar: "digitVal (digitChar n) = n mod 10"
  unfolding digitChar_def by (rule digitVal_nth) simp

lemma isDigit_digitChar: "isDigit (digitChar n)"
  unfolding isDigit_def digitChar_def digitChars_def by (rule nth_mem) simp

lemma parseDigits_snoc: "parseDigits (ds @ [c]) = 10 * parseDigits ds + digitVal c"
  by (simp add: parseDigits_def)

lemma parseDigits_showNat: "parseDigits (showNat n) = n"
proof (induction n rule: showNat.induct)
  case (1 n)
  show ?case
  proof (cases "n < 10")
    case True
    then show ?thesis by (subst showNat.simps) (simp add: parseDigits_def digitVal_digitChar)
  next
    case False
    with 1 show ?thesis by (subst showNat.simps) (simp add: parseDigits_snoc digitVal_digitChar)
  qed
qed

lemma showNat_digits: "\<forall>c \<in> set (showNat n). isDigit c"
proof (induction n rule: showNat.induct)
  case (1 n)
  then show ?case by (subst showNat.simps) (auto simp: isDigit_digitChar)
qed

lemma showNat_nonempty: "showNat n \<noteq> []"
  by (subst showNat.simps) simp

lemma parseInt_showInt: "parseInt (showInt i) = i"
proof (cases "i < 0")
  case True
  then show ?thesis by (simp add: parseInt_def showInt_def parseDigits_showNat)
next
  case False
  obtain c ds where s: "showNat (nat i) = c # ds" using showNat_nonempty by (cases "showNat (nat i)") auto
  have "isDigit c" using showNat_digits [of "nat i"] s by simp
  then have "c \<noteq> CHR ''-''" by (auto simp: isDigit_def digitChars_def)
  with False s show ?thesis
    using parseDigits_showNat [of "nat i"] by (simp add: parseInt_def showInt_def)
qed

lemma isDigit_not_special: "isDigit c \<Longrightarrow> c \<noteq> CHR ''-'' \<and> c \<noteq> CHR ''_'' \<and> c \<noteq> CHR '',''"
  by (auto simp: isDigit_def digitChars_def)

lemma matchDigits_showNat:
  assumes "\<not> isDigit x"
  shows "matchDigits (showNat n @ x # rest) = Some (showNat n, x # rest)"
proof -
  have tw: "takeWhile isDigit (showNat n @ x # rest) = showNat n"
    using showNat_digits [of n] assms by (simp add: takeWhile_append2)
  have dw: "dropWhile isDigit (showNat n @ x # rest) = x # rest"
    using showNat_digits [of n] assms by (simp add: dropWhile_append2)
  show ?thesis unfolding matchDigits_def tw dw by (simp add: showNat_nonempty)
qed

lemma matchDigits_showNat_end: "matchDigits (showNat n) = Some (showNat n, [])"
proof -
  have tw: "takeWhile isDigit (showNat n) = showNat n"
    using showNat_digits [of n] by (simp add: takeWhile_eq_all_conv)
  have dw: "dropWhile isDigit (showNat n) = []"
    using showNat_digits [of n] by simp
  show ?thesis unfolding matchDigits_def tw dw by (simp add: showNat_nonempty)
qed

lemma optMinus_showNat: "optMinus (showNat n @ rest) = ([], showNat n @ rest)"
proof -
  obtain c ds where s: "showNat n = c # ds" using showNat_nonempty by (cases "showNat n") auto
  have "isDigit c" using showNat_digits [of n] s by simp
  then have "c \<noteq> CHR ''-''" using isDigit_not_special by blast
  then show ?thesis by (simp add: optMinus_def s)
qed

lemma matchSignedInt_showInt:
  assumes "\<not> isDigit x"
  shows "matchSignedInt (showInt i @ x # rest) = Some (showInt i, x # rest)"
proof (cases "i < 0")
  case True
  then show ?thesis
    by (simp add: matchSignedInt_def showInt_def optMinus_def matchDigits_showNat [OF assms])
next
  case False
  then show ?thesis
    by (simp add: matchSignedInt_def showInt_def optMinus_showNat matchDigits_showNat [OF assms])
qed

lemma underscore_not_digit: "\<not> isDigit (CHR ''_'')"
  by (simp add: isDigit_def digitChars_def)

lemma matchKeyAt_coordKey:
  "matchKeyAt pfx (coordKey pfx (q, r, dir)) = Some (showInt q, showInt r, showNat dir)"
  by (simp add: matchKeyAt_def coordKey_def matchChar_def
        matchSignedInt_showInt [OF underscore_not_digit] matchDigits_showNat_end)

lemma parseKey_coordKey: "parseKey pfx (coordKey pfx c) = Some c"
proof -
  obtain q r dir where c: "c = (q, r, dir)" by (cases c)
  have "coordKey pfx (q, r, dir) = pfx # tl (coordKey pfx (q, r, dir))"
    by (simp add: coordKey_def)
  then have "regexMatch pfx (coordKey pfx (q, r, dir)) = Some (showInt q, showInt r, showNat dir)"
    using matchKeyAt_coordKey [of pfx q r dir]
    by (metis option.simps(5) regexMatch.simps(2))
  then show ?thesis by (simp add: parseKey_def c parseInt_showInt parseDigits_showNat)
qed

lemma coordKey_inject: "coordKey pfx a = coordKey pfx b \<longleftrightarrow> a = b"
  by (metis option.inject parseKey_coordKey)

lemma vertexKey_inject: "vertexKey a = vertexKey b \<longleftrightarrow> a = b"
  by (simp add: vertexKey_def coordKey_inject)

lemma parseVertexKey_vertexKey: "parseVertexKey (vertexKey c) = Some c"
  by (simp add: parseVertexKey_def vertexKey_def parseKey_coordKey)

lemma parseEdgeKey_edgeKey: "parseEdgeKey (edgeKey c) = Some c"
  by (simp add: parseEdgeKey_def edgeKey_def parseKey_coordKey)



section \<open>Properties of the coordinate layer\<close>

lemma equivalentVertices_mem_sym:
  "b \<in> set (equivalentVertices a) \<Longrightarrow> a \<in> set (equivalentVertices b)"
  by (cases a; cases b)
     (auto simp: equivalentVertices_def getEquivalentVerticesLocal.simps split: if_splits)

lemma equivalentVertices_same_lattice:
  "b \<in> set (equivalentVertices a) \<Longrightarrow> vertexLattice b = vertexLattice a"
  by (cases a; cases b)
     (auto simp: equivalentVertices_def getEquivalentVerticesLocal.simps vertexLattice_def
           vertexOffsetX_def vertexOffsetY_def split: if_splits)

lemma dir_cases:
  "(dir::nat) < 6 \<Longrightarrow> dir = 0 \<or> dir = 1 \<or> dir = 2 \<or> dir = 3 \<or> dir = 4 \<or> dir = 5"
  by arith

lemma equivalentVertices_three:
  assumes "dir < 6"
  shows "length (getEquivalentVerticesLocal q r dir) = 3
     \<and> distinct (map (\<lambda>c. (fst c, fst (snd c))) (getEquivalentVerticesLocal q r dir))
     \<and> map (\<lambda>c. snd (snd c)) (getEquivalentVerticesLocal q r dir)
           = [dir, (dir + 2) mod 6, (dir + 4) mod 6]"
  using dir_cases [OF assms] by (elim disjE) (simp_all add: getEquivalentVerticesLocal.simps)

text \<open>
  Claim C9. For every coordinate triple, \<open>equivalentVertices\<close> returns at most three
  triples, itself among them; all of them lie at the same point of the board; for a
  direction in \<open>0..5\<close> they are exactly three, sitting in three different hexes
  and following the fixed per-direction offsets (directions \<open>dir\<close>, \<open>dir + 2\<close> and
  \<open>dir + 4\<close> modulo 6); and the relation is symmetric, so that \<open>areVerticesEqual\<close> is a
  symmetric membership test.
\<close>

theorem equivalentVertices_symmetric_class:
  "length (equivalentVertices a) \<le> 3
   \<and> a \<in> set (equivalentVertices a)
   \<and> (\<forall>b \<in> set (equivalentVertices a). vertexLattice b = vertexLattice a)
   \<and> (snd (snd a) < 6 \<longrightarrow>
        length (equivalentVertices a) = 3 \<and> distinct (map (\<lambda>c. (fst c, fst (snd c))) (equivalentVertices a))
        \<and> map (\<lambda>c. snd (snd c)) (equivalentVertices a)
            = [snd (snd a), (snd (snd a) + 2) mod 6, (snd (snd a) + 4) mod 6])
   \<and> (b \<in> set (equivalentVertices a) \<longrightarrow> a \<in> set (equivalentVertices b))
   \<and> (areVerticesEqual a b = areVerticesEqual b a)"
proof -
  obtain q r dir where a: "a = (q, r, dir)" by (cases a)
  have len: "length (equivalentVertices a) \<le> 3"
    by (simp add: a equivalentVertices_def getEquivalentVerticesLocal.simps)
  have self: "a \<in> set (equivalentVertices a)"
    by (simp add: a equivalentVertices_def getEquivalentVerticesLocal.simps)
  have pos: "\<forall>b \<in> set (equivalentVertices a). vertexLattice b = vertexLattice a"
    using equivalentVertices_same_lattice by blast
  have three: "snd (snd a) < 6 \<longrightarrow>
        length (equivalentVertices a) = 3 \<and> distinct (map (\<lambda>c. (fst c, fst (snd c))) (equivalentVertices a))
        \<and> map (\<lambda>c. snd (snd c)) (equivalentVertices a)
            = [snd (snd a), (snd (snd a) + 2) mod 6, (snd (snd a) + 4) mod 6]"
  proof
    assume "snd (snd a) < 6"
    then have d: "dir < 6" by (simp add: a)
    from equivalentVertices_three [OF d, of q r]
    show "length (equivalentVertices a) = 3 \<and> distinct (map (\<lambda>c. (fst c, fst (snd c))) (equivalentVertices a))
        \<and> map (\<lambda>c. snd (snd c)) (equivalentVertices a)
            = [snd (snd a), (snd (snd a) + 2) mod 6, (snd (snd a) + 4) mod 6]"
      unfolding a equivalentVertices_def by simp
  qed
  have sym: "b \<in> set (equivalentVertices a) \<longrightarrow> a \<in> set (equivalentVertices b)"
    using equivalentVertices_mem_sym by blast
  have eq: "areVerticesEqual a b = areVerticesEqual b a"
    unfolding areVerticesEqual_def using equivalentVertices_mem_sym by blast
  show ?thesis by (intro conjI; fact len self pos three sym eq)
qed

theorem equivalentVertices_symmetric_class_witness:
  "(1, 0, 5) \<in> set (equivalentVertices (0, 0, 1))
   \<and> snd (snd ((0, 0, 1) :: coord)) < 6
   \<and> vertexLattice (1, 0, 5) = vertexLattice (0, 0, 1)
   \<and> (0, 0, 1) \<in> set (equivalentVertices (1, 0, 5))
   \<and> length (equivalentVertices (0, 0, 1)) = 3"
proof -
  have m: "(1, 0, 5) \<in> set (equivalentVertices (0, 0, 1))"
    by (simp add: equivalentVertices_def getEquivalentVerticesLocal.simps)
  have d: "snd (snd ((0, 0, 1) :: coord)) < 6" by simp
  note inst = equivalentVertices_symmetric_class [of "(0, 0, 1)" "(1, 0, 5)"]
  from inst m have pos: "vertexLattice (1, 0, 5) = vertexLattice (0, 0, 1)" by blast
  from inst m have sym: "(0, 0, 1) \<in> set (equivalentVertices (1, 0, 5))" by blast
  from inst d have len: "length (equivalentVertices (0, 0, 1)) = 3" by blast
  show ?thesis by (intro conjI; fact m d pos sym len)
qed

section \<open>Resource distribution at a shared vertex\<close>

lemma vertexOffsets_inj:
  "d < 6 \<Longrightarrow> d' < 6 \<Longrightarrow> vertexOffsetX d = vertexOffsetX d' \<Longrightarrow> vertexOffsetY d = vertexOffsetY d' \<Longrightarrow> d = d'"
  apply (drule dir_cases)
  apply (drule dir_cases)
  apply (elim disjE; simp add: vertexOffsetX_def vertexOffsetY_def)
  done

lemma vertexLattice_same_hex:
  "d < 6 \<Longrightarrow> d' < 6 \<Longrightarrow> vertexLattice (q, r, d) = vertexLattice (q, r, d') \<Longrightarrow> d = d'"
  using vertexOffsets_inj [of d d'] by (simp add: vertexLattice_def)

lemma equivalentVertices_trans:
  "b \<in> set (equivalentVertices a) \<Longrightarrow> c \<in> set (equivalentVertices b) \<Longrightarrow> c \<in> set (equivalentVertices a)"
  by (cases a; cases b; cases c)
     (auto simp: equivalentVertices_def getEquivalentVerticesLocal.simps split: if_splits)


lemma creditBuilding_None [simp]: "creditBuilding hKey h None st = Some st"
  by (simp add: creditBuilding_def)



lemma tag_inject: "k @ '','' @ a = k @ '','' @ b \<longleftrightarrow> a = b"
  by simp























section \<open>The board component passes over keys without the pattern\<close>

lemma takeWhile_digits_append:
  assumes "list_all isDigit ds" "\<not> isDigit x"
  shows "takeWhile isDigit (ds @ x # rest) = ds" "dropWhile isDigit (ds @ x # rest) = x # rest"
  using assms by (induction ds) simp_all

lemma matchDigits_run_sep:
  assumes "digitRun ds" "\<not> isDigit x"
  shows "matchDigits (ds @ x # rest) = Some (ds, x # rest)"
  using assms takeWhile_digits_append [of ds x rest]
  by (simp add: matchDigits_def digitRun_def)

lemma matchDigits_run_any:
  assumes "digitRun ds"
  shows "matchDigits (ds @ post) \<noteq> None"
proof -
  from assms obtain c cs where "ds = c # cs" "isDigit c"
    by (cases ds) (auto simp: digitRun_def)
  then show ?thesis by (simp add: matchDigits_def)
qed

lemma matchSignedInt_run_sep:
  assumes "signedRun g" "\<not> isDigit x"
  shows "matchSignedInt (g @ x # rest) = Some (g, x # rest)"
proof -
  from assms(1) consider (pos) "digitRun g" | (neg) ds where "g = CHR ''-'' # ds" "digitRun ds"
    unfolding signedRun_def by blast
  then show ?thesis
  proof cases
    case pos
    then obtain c cs where g: "g = c # cs" and c: "isDigit c"
      by (cases g) (auto simp: digitRun_def)
    from c have "c \<noteq> CHR ''-''" using isDigit_not_special by blast
    then have "optMinus (g @ x # rest) = ([], g @ x # rest)" by (simp add: optMinus_def g)
    then show ?thesis
      by (simp add: matchSignedInt_def matchDigits_run_sep [OF pos assms(2)])
  next
    case neg
    have "optMinus (g @ x # rest) = ([CHR ''-''], ds @ x # rest)" by (simp add: optMinus_def neg(1))
    then show ?thesis
      by (simp add: matchSignedInt_def matchDigits_run_sep [OF neg(2) assms(2)] neg(1))
  qed
qed

lemma matchKeyAt_pattern:
  assumes "signedRun g1" "signedRun g2" "digitRun g3"
  shows "matchKeyAt pfx (pfx # ''_'' @ g1 @ ''_'' @ g2 @ ''_'' @ g3 @ post) \<noteq> None"
  using matchDigits_run_any [OF assms(3), of post]
  by (auto simp: matchKeyAt_def matchChar_def
        matchSignedInt_run_sep [OF assms(1) underscore_not_digit]
        matchSignedInt_run_sep [OF assms(2) underscore_not_digit] split: option.splits)

lemma regexMatch_prefix:
  assumes "matchKeyAt pfx body \<noteq> None"
  shows "regexMatch pfx (pre @ body) \<noteq> None"
proof (induction pre)
  case Nil
  from assms obtain x t where "body = x # t" by (cases body) (auto simp: matchKeyAt_def matchChar_def)
  with assms show ?case by (auto split: option.splits)
next
  case (Cons a pre)
  then show ?case by (auto split: option.splits)
qed

lemma matchDigits_SomeD:
  assumes "matchDigits s = Some (ds, rest)"
  shows "s = ds @ rest \<and> digitRun ds"
proof -
  from assms have ds: "ds = takeWhile isDigit s" and rest: "rest = dropWhile isDigit s"
    and ne: "takeWhile isDigit s \<noteq> []"
    by (auto simp: matchDigits_def split: if_splits)
  have "list_all isDigit (takeWhile isDigit s)"
    by (simp add: list_all_iff) (meson set_takeWhileD)
  with ds rest ne show ?thesis by (simp add: digitRun_def)
qed

lemma matchSignedInt_SomeD:
  assumes "matchSignedInt s = Some (g, rest)"
  shows "s = g @ rest \<and> signedRun g"
proof -
  obtain sg t where om: "optMinus s = (sg, t)" by (cases "optMinus s")
  with assms obtain ds where md: "matchDigits t = Some (ds, rest)" and g: "g = sg @ ds"
    by (auto simp: matchSignedInt_def split: option.splits)
  from matchDigits_SomeD [OF md] have t: "t = ds @ rest" and dr: "digitRun ds" by simp_all
  from om have "(sg = [] \<and> t = s) \<or> (sg = [CHR ''-''] \<and> s = CHR ''-'' # t)"
    by (auto simp: optMinus_def split: list.splits if_splits)
  with t dr g show ?thesis by (auto simp: signedRun_def)
qed

lemma matchChar_SomeD: "matchChar c s = Some t \<Longrightarrow> s = c # t"
  by (auto simp: matchChar_def split: list.splits if_splits)

lemma matchKeyAt_SomeD:
  assumes "matchKeyAt pfx s = Some (g1, g2, g3)"
  shows "\<exists>post. s = pfx # ''_'' @ g1 @ ''_'' @ g2 @ ''_'' @ g3 @ post
           \<and> signedRun g1 \<and> signedRun g2 \<and> digitRun g3"
proof -
  from assms obtain s1 s2 s3 s4 s5 s6 s7 where
    1: "matchChar pfx s = Some s1" and 2: "matchChar (CHR ''_'') s1 = Some s2"
    and 3: "matchSignedInt s2 = Some (g1, s3)" and 4: "matchChar (CHR ''_'') s3 = Some s4"
    and 5: "matchSignedInt s4 = Some (g2, s5)" and 6: "matchChar (CHR ''_'') s5 = Some s6"
    and 7: "matchDigits s6 = Some (g3, s7)"
    by (auto simp: matchKeyAt_def split: option.splits)
  from matchChar_SomeD [OF 1] matchChar_SomeD [OF 2] matchSignedInt_SomeD [OF 3]
    matchChar_SomeD [OF 4] matchSignedInt_SomeD [OF 5] matchChar_SomeD [OF 6]
    matchDigits_SomeD [OF 7]
  have "s = pfx # ''_'' @ g1 @ ''_'' @ g2 @ ''_'' @ g3 @ s7
           \<and> signedRun g1 \<and> signedRun g2 \<and> digitRun g3" by simp
  then show ?thesis by blast
qed

lemma regexMatch_SomeD:
  "regexMatch pfx key = Some m \<Longrightarrow> containsKeyPattern pfx key"
proof (induction key)
  case Nil
  then show ?case by simp
next
  case (Cons x t)
  show ?case
  proof (cases "matchKeyAt pfx (x # t)")
    case None
    with Cons have "containsKeyPattern pfx t" by simp
    then obtain pre g1 g2 g3 post where
      "t = pre @ pfx # ''_'' @ g1 @ ''_'' @ g2 @ ''_'' @ g3 @ post"
      "signedRun g1" "signedRun g2" "digitRun g3"
      unfolding containsKeyPattern_def by blast
    then have "x # t = (x # pre) @ pfx # ''_'' @ g1 @ ''_'' @ g2 @ ''_'' @ g3 @ post
        \<and> signedRun g1 \<and> signedRun g2 \<and> digitRun g3" by simp
    then show ?thesis unfolding containsKeyPattern_def by blast
  next
    case (Some m')
    obtain g1 g2 g3 where "m' = (g1, g2, g3)" by (cases m')
    with Some matchKeyAt_SomeD [of pfx "x # t" g1 g2 g3] obtain post where
      "x # t = [] @ pfx # ''_'' @ g1 @ ''_'' @ g2 @ ''_'' @ g3 @ post
        \<and> signedRun g1 \<and> signedRun g2 \<and> digitRun g3" by auto
    then show ?thesis unfolding containsKeyPattern_def by blast
  qed
qed

lemma parseKey_None_iff: "parseKey pfx key = None \<longleftrightarrow> \<not> containsKeyPattern pfx key"
proof
  assume "parseKey pfx key = None"
  then have n: "regexMatch pfx key = None" by (auto simp: parseKey_def split: option.splits)
  show "\<not> containsKeyPattern pfx key"
  proof
    assume "containsKeyPattern pfx key"
    then obtain pre g1 g2 g3 post where
      k: "key = pre @ pfx # ''_'' @ g1 @ ''_'' @ g2 @ ''_'' @ g3 @ post"
      and r: "signedRun g1" "signedRun g2" "digitRun g3"
      unfolding containsKeyPattern_def by blast
    from regexMatch_prefix [OF matchKeyAt_pattern [OF r], of pfx pre post] n
    show False unfolding k by simp
  qed
next
  assume c: "\<not> containsKeyPattern pfx key"
  show "parseKey pfx key = None"
  proof (cases "regexMatch pfx key")
    case None
    then show ?thesis by (simp add: parseKey_def)
  next
    case (Some m)
    with regexMatch_SomeD c show ?thesis by blast
  qed
qed

lemma wellFormedKey_iff: "wellFormedKey pfx key \<longleftrightarrow> (\<exists>c. key = coordKey pfx c)"
  by (auto simp: wellFormedKey_def parseKey_coordKey split: option.splits)

lemma roads_skip:
  "roads ge es = roads ge (filter (\<lambda>(k, e). parseEdgeKey k \<noteq> None) es)"
  by (induction es) (auto split: option.splits)

lemma roads_keys_parse:
  "it \<in> set (roads ge es) \<Longrightarrow> parseEdgeKey (fst it) \<noteq> None"
  by (induction es) (auto split: option.splits if_splits)

lemma roadPositions_skip:
  "roadPositions ge pk es = roadPositions ge pk (filter (\<lambda>(k, e). parseEdgeKey k \<noteq> None) es)"
  by (induction es) (auto split: option.splits)

lemma clickableLoop_skip:
  "clickableLoop ge pk rp seen es
     = clickableLoop ge pk rp seen (filter (\<lambda>(k, e). parseEdgeKey k \<noteq> None) es)"
  by (induction es arbitrary: seen) (auto simp: Let_def split: option.splits)

lemma clickableEdges_skip:
  "clickableEdges ge pk es = clickableEdges ge pk (filter (\<lambda>(k, e). parseEdgeKey k \<noteq> None) es)"
  unfolding clickableEdges_def
  by (subst clickableLoop_skip, subst roadPositions_skip) (rule refl)

lemma clickableLoop_keys_parse:
  "it \<in> set (clickableLoop ge pk rp seen es) \<Longrightarrow> parseEdgeKey (fst it) \<noteq> None"
  by (induction es arbitrary: seen) (auto simp: Let_def split: option.splits if_splits)

lemma uniqueStep_unparsed:
  "parseVertexKey (fst entry) = None \<Longrightarrow> uniqueStep gp pk hs entry st = st"
  by (cases entry; cases st) (simp add: uniqueStep_def)

lemma uniqueLoop_skip:
  "uniqueLoop gp pk hs vs st
     = uniqueLoop gp pk hs (filter (\<lambda>(k, v). parseVertexKey k \<noteq> None) vs) st"
proof (induction vs arbitrary: st)
  case Nil
  then show ?case by simp
next
  case (Cons entry vs)
  show ?case
  proof (cases "parseVertexKey (fst entry) = None")
    case True
    then show ?thesis using Cons [of st] by (cases entry) (simp add: uniqueStep_unparsed)
  next
    case False
    then show ?thesis using Cons [of "uniqueStep gp pk hs entry st"] by (cases entry) auto
  qed
qed

lemma uniqueVertices_skip:
  "uniqueVertices gp pk hs vs
     = uniqueVertices gp pk hs (filter (\<lambda>(k, v). parseVertexKey k \<noteq> None) vs)"
  unfolding uniqueVertices_def by (subst uniqueLoop_skip) (rule refl)

lemma parsed_filter_edges:
  "filter (\<lambda>(k, e). parseEdgeKey k \<noteq> None) es = filter (\<lambda>(k, e). containsKeyPattern (CHR ''e'') k) es"
  by (rule filter_cong) (auto simp: parseEdgeKey_def parseKey_None_iff)

lemma parsed_filter_vertices:
  "filter (\<lambda>(k, v). parseVertexKey k \<noteq> None) vs = filter (\<lambda>(k, v). containsKeyPattern (CHR ''v'') k) vs"
  by (rule filter_cong) (auto simp: parseVertexKey_def parseKey_None_iff)

lemma readObject_Some: "readObject (Some x) = Inr x"
  by (simp add: readObject_def)

lemma parseKeyChecked_returns: "parseKeyChecked pfx key = Inr (parseKey pfx key)"
  by (cases "regexMatch pfx key")
     (auto simp: parseKeyChecked_def parseKey_def readObject_def Let_def)

lemma parseEdgeKeyChecked_returns: "parseEdgeKeyChecked key = Inr (parseEdgeKey key)"
  by (simp add: parseEdgeKeyChecked_def parseEdgeKey_def parseKeyChecked_returns)

lemma parseVertexKeyChecked_returns: "parseVertexKeyChecked key = Inr (parseVertexKey key)"
  by (simp add: parseVertexKeyChecked_def parseVertexKey_def parseKeyChecked_returns)

lemma roadsChecked_returns: "roadsChecked ge es = Inr (roads ge es)"
  by (induction es) (auto simp: parseEdgeKeyChecked_returns readObject_def split: option.splits)

lemma roadPositionsChecked_returns:
  "roadPositionsChecked ge pk es = Inr (roadPositions ge pk es)"
  by (induction es) (auto simp: parseEdgeKeyChecked_returns readObject_def split: option.splits)

lemma clickableLoopChecked_returns:
  "clickableLoopChecked ge pk rp seen es = Inr (clickableLoop ge pk rp seen es)"
  by (induction es arbitrary: seen)
     (auto simp: parseEdgeKeyChecked_returns readObject_def Let_def split: option.splits)

lemma clickableEdgesChecked_returns:
  "clickableEdgesChecked ge pk es = Inr (clickableEdges ge pk es)"
  by (simp add: clickableEdgesChecked_def clickableEdges_def roadPositionsChecked_returns
        clickableLoopChecked_returns)

lemma uniqueStepChecked_returns:
  "uniqueStepChecked gp pk hs entry st = Inr (uniqueStep gp pk hs entry st)"
  by (cases entry; cases st)
     (auto simp: uniqueStepChecked_def uniqueStep_def parseVertexKeyChecked_returns readObject_def
        Let_def split: option.splits)

lemma uniqueLoopChecked_returns:
  "uniqueLoopChecked gp pk hs vs st = Inr (uniqueLoop gp pk hs vs st)"
  by (induction vs arbitrary: st) (simp_all add: uniqueStepChecked_returns)

lemma uniqueVerticesChecked_returns:
  "uniqueVerticesChecked gp pk hs vs = Inr (uniqueVertices gp pk hs vs)"
  by (simp add: uniqueVerticesChecked_def uniqueVertices_def uniqueLoopChecked_returns)

text \<open>
  Claim C10, as the code has it. A key is parsed to \<open>null\<close> exactly when the pattern
  occurs nowhere in it, and the three derived lists pass such entries over: each list is
  the list computed from the entries whose key contains the pattern. No computation
  throws, whatever the keys: with every read of a possibly missing object written out as
  a read that can fail, the parsers and the three derived computations still return, and
  return what the plain computations give.
\<close>

theorem unparsed_keys_skipped:
  "(parseVertexKey key = None \<longleftrightarrow> \<not> containsKeyPattern (CHR ''v'') key)
   \<and> (parseEdgeKey key = None \<longleftrightarrow> \<not> containsKeyPattern (CHR ''e'') key)
   \<and> roads getEdgeEndpoints es
       = roads getEdgeEndpoints (filter (\<lambda>(k, e). containsKeyPattern (CHR ''e'') k) es)
   \<and> clickableEdges getEdgeEndpoints edgePosKey es
       = clickableEdges getEdgeEndpoints edgePosKey (filter (\<lambda>(k, e). containsKeyPattern (CHR ''e'') k) es)
   \<and> uniqueVertices getVertexPosition posKey hs vs
       = uniqueVertices getVertexPosition posKey hs (filter (\<lambda>(k, v). containsKeyPattern (CHR ''v'') k) vs)
   \<and> parseVertexKeyChecked key = Inr (parseVertexKey key)
   \<and> parseEdgeKeyChecked key = Inr (parseEdgeKey key)
   \<and> roadsChecked getEdgeEndpoints es = Inr (roads getEdgeEndpoints es)
   \<and> clickableEdgesChecked getEdgeEndpoints edgePosKey es
       = Inr (clickableEdges getEdgeEndpoints edgePosKey es)
   \<and> uniqueVerticesChecked getVertexPosition posKey hs vs
       = Inr (uniqueVertices getVertexPosition posKey hs vs)"
proof -
  have 1: "parseVertexKey key = None \<longleftrightarrow> \<not> containsKeyPattern (CHR ''v'') key"
    by (simp add: parseVertexKey_def parseKey_None_iff)
  have 2: "parseEdgeKey key = None \<longleftrightarrow> \<not> containsKeyPattern (CHR ''e'') key"
    by (simp add: parseEdgeKey_def parseKey_None_iff)
  have 3: "roads getEdgeEndpoints es
       = roads getEdgeEndpoints (filter (\<lambda>(k, e). containsKeyPattern (CHR ''e'') k) es)"
    using roads_skip [of getEdgeEndpoints es] by (simp only: parsed_filter_edges)
  have 4: "clickableEdges getEdgeEndpoints edgePosKey es
       = clickableEdges getEdgeEndpoints edgePosKey (filter (\<lambda>(k, e). containsKeyPattern (CHR ''e'') k) es)"
    using clickableEdges_skip [of getEdgeEndpoints edgePosKey es] by (simp only: parsed_filter_edges)
  have 5: "uniqueVertices getVertexPosition posKey hs vs
       = uniqueVertices getVertexPosition posKey hs (filter (\<lambda>(k, v). containsKeyPattern (CHR ''v'') k) vs)"
    using uniqueVertices_skip [of getVertexPosition posKey hs vs] by (simp only: parsed_filter_vertices)
  have 6: "parseVertexKeyChecked key = Inr (parseVertexKey key)"
    by (rule parseVertexKeyChecked_returns)
  have 7: "parseEdgeKeyChecked key = Inr (parseEdgeKey key)"
    by (rule parseEdgeKeyChecked_returns)
  have 8: "roadsChecked getEdgeEndpoints es = Inr (roads getEdgeEndpoints es)"
    by (rule roadsChecked_returns)
  have 9: "clickableEdgesChecked getEdgeEndpoints edgePosKey es
       = Inr (clickableEdges getEdgeEndpoints edgePosKey es)"
    by (rule clickableEdgesChecked_returns)
  have 10: "uniqueVerticesChecked getVertexPosition posKey hs vs
       = Inr (uniqueVertices getVertexPosition posKey hs vs)"
    by (rule uniqueVerticesChecked_returns)
  show ?thesis by (intro conjI; fact 1 2 3 4 5 6 7 8 9 10)
qed

theorem unparsed_keys_skipped_witness:
  "parseEdgeKey ''road-7'' = None
   \<and> \<not> containsKeyPattern (CHR ''e'') ''road-7''
   \<and> roads edgeEndpoints
         [(''road-7'', \<lparr>road = True, roadOwner = Some 0\<rparr>),
          (''e_0_0_1'', \<lparr>road = True, roadOwner = Some 1\<rparr>)]
       = [(''e_0_0_1'', Some 1, (0, 0, 1), (0, 0, 2))]
   \<and> parseEdgeKeyChecked ''road-7'' = Inr None"
proof -
  have n: "parseEdgeKey ''road-7'' = None" by code_simp
  from unparsed_keys_skipped [of "''road-7''"] n
  have c: "\<not> containsKeyPattern (CHR ''e'') ''road-7''" by blast
  have r: "roads edgeEndpoints
         [(''road-7'', \<lparr>road = True, roadOwner = Some 0\<rparr>),
          (''e_0_0_1'', \<lparr>road = True, roadOwner = Some 1\<rparr>)]
       = [(''e_0_0_1'', Some 1, (0, 0, 1), (0, 0, 2))]" by code_simp
  from unparsed_keys_skipped [of "''road-7''"] n
  have k: "parseEdgeKeyChecked ''road-7'' = Inr None" by metis
  show ?thesis by (intro conjI; fact n c r k)
qed

text \<open>
  The claim as it is written fails on a key that is not of the format and yet contains
  the pattern: \<open>xv_1_2_3\<close> is no rendering of a triple, is parsed to \<open>(1, 2, 3)\<close>, and an
  edge stored under \<open>xe_1_2_3\<close> is drawn as a road.
\<close>

theorem stray_prefix_key_counterexample:
  "\<not> wellFormedKey (CHR ''v'') ''xv_1_2_3''
   \<and> parseVertexKey ''xv_1_2_3'' = Some (1, 2, 3)
   \<and> \<not> wellFormedKey (CHR ''e'') ''xe_1_2_3''
   \<and> roads edgeEndpoints [(''xe_1_2_3'', \<lparr>road = True, roadOwner = Some 0\<rparr>)]
       = [(''xe_1_2_3'', Some 0, (1, 2, 3), (1, 2, 4))]"
  by code_simp

section \<open>The search on simple paths and cycles\<close>

lemma sameEdge_refl [simp]: "sameEdge e e"
  by (simp add: sameEdge_def)

lemma sameEdge_sym: "sameEdge a b \<Longrightarrow> sameEdge b a"
  by (auto simp: sameEdge_def)

lemma sameEdge_trans: "sameEdge a b \<Longrightarrow> sameEdge b c \<Longrightarrow> sameEdge a c"
  by (auto simp: sameEdge_def)

lemma sameEdge_swap [simp]: "sameEdge (a, b) (b, a)"
  by (simp add: sameEdge_def)

lemma sameEdge_incident: "sameEdge e (a, b) \<Longrightarrow> incident e v \<longleftrightarrow> v = a \<or> v = b"
  by (auto simp: sameEdge_def incident_def)

lemma sameEdge_otherEnd: "sameEdge e (a, b) \<Longrightarrow> a \<noteq> b \<Longrightarrow> otherEnd e a = b \<and> otherEnd e b = a"
  by (auto simp: sameEdge_def otherEnd_def)

lemma sameEdge_pairs: "sameEdge (a, b) (c, d) \<longleftrightarrow> (a = c \<and> b = d) \<or> (a = d \<and> b = c)"
  by (auto simp: sameEdge_def)

lemma maxList_ge: "x \<in> set xs \<Longrightarrow> f x \<le> maxList (map f xs)"
  by (induction xs) auto

lemma maxList_le: "(\<And>x. x \<in> set xs \<Longrightarrow> f x \<le> k) \<Longrightarrow> maxList (map f xs) \<le> k"
  by (induction xs) auto

lemma filter_single:
  assumes "distinct xs" "x \<in> set xs" "P x" "\<And>y. y \<in> set xs \<Longrightarrow> P y \<Longrightarrow> y = x"
  shows "filter P xs = [x]"
proof -
  from assms(2) obtain ys zs where xs: "xs = ys @ x # zs" by (meson split_list)
  from assms(1) have nx: "x \<notin> set ys" "x \<notin> set zs" unfolding xs by auto
  have "filter P ys = []"
    unfolding filter_empty_conv
  proof
    fix y assume y: "y \<in> set ys"
    then have "y \<in> set xs" unfolding xs by simp
    with assms(4) [of y] y nx(1) show "\<not> P y" by blast
  qed
  moreover have "filter P zs = []"
    unfolding filter_empty_conv
  proof
    fix y assume y: "y \<in> set zs"
    then have "y \<in> set xs" unfolding xs by simp
    with assms(4) [of y] y nx(2) show "\<not> P y" by blast
  qed
  ultimately show ?thesis unfolding xs using assms(3) by simp
qed

lemma extendPath_dead_end:
  assumes "\<And>e. e \<in> set unused \<Longrightarrow> \<not> incident e v"
  shows "extendPath blocked unused v = 0"
proof -
  have "filter (\<lambda>e. incident e v) unused = []" using assms by (auto simp: filter_empty_conv)
  then show ?thesis by (subst extendPath.simps) simp
qed

lemma extendPath_forced:
  assumes "filter (\<lambda>e. incident e v) unused = [x]"
  shows "extendPath blocked unused v
         = Suc (if blocked (otherEnd x v) then 0
                else extendPath blocked (remove1 x unused) (otherEnd x v))"
  by (subst extendPath.simps) (simp add: assms)

lemma extendPath_le_length: "extendPath blocked unused v \<le> length unused"
proof (induction blocked unused v rule: extendPath.induct)
  case (1 blocked unused v)
  show ?case
  proof (subst extendPath.simps, rule maxList_le)
    fix e assume e: "e \<in> set (filter (\<lambda>e. incident e v) unused)"
    then have mem: "e \<in> set unused" by simp
    then have pos: "0 < length unused" by (rule length_pos_if_in_set)
    show "Suc (if blocked (otherEnd e v) then 0
               else extendPath blocked (remove1 e unused) (otherEnd e v)) \<le> length unused"
    proof (cases "blocked (otherEnd e v)")
      case True
      with pos show ?thesis by (simp add: Suc_le_eq)
    next
      case False
      from "1.IH" [OF e False] have "extendPath blocked (remove1 e unused) (otherEnd e v) \<le> length unused - 1"
        using mem by (simp add: length_remove1)
      with pos have "Suc (extendPath blocked (remove1 e unused) (otherEnd e v)) \<le> length unused"
        by arith
      with False show ?thesis by simp
    qed
  qed
qed

lemma extendPath_branch_ge:
  assumes "x \<in> set unused" "incident x v"
  shows "Suc (if blocked (otherEnd x v) then 0
              else extendPath blocked (remove1 x unused) (otherEnd x v))
         \<le> extendPath blocked unused v"
proof -
  have "x \<in> set (filter (\<lambda>e. incident e v) unused)" using assms by simp
  from maxList_ge [OF this, of "\<lambda>e. Suc (if blocked (otherEnd e v) then 0
              else extendPath blocked (remove1 e unused) (otherEnd e v))"]
  show ?thesis by (subst (2) extendPath.simps)
qed

lemma adjacentPairs_simps [simp]:
  "adjacentPairs [] = []" "adjacentPairs [x] = []"
  "adjacentPairs (x # y # zs) = (x, y) # adjacentPairs (y # zs)"
  by (simp_all add: adjacentPairs_def)

lemma adjacentPairs_mem:
  "(a, b) \<in> set (adjacentPairs vs) \<Longrightarrow> a \<in> set vs \<and> b \<in> set vs"
proof (induction vs rule: induct_list012)
  case 1 then show ?case by simp
next
  case (2 x) then show ?case by simp
next
  case (3 x y zs) then show ?case by auto
qed

lemma adjacentPairs_iff:
  "(a, b) \<in> set (adjacentPairs vs) \<longleftrightarrow> (\<exists>xs ys. vs = xs @ a # b # ys)"
proof (induction vs rule: induct_list012)
  case 1 then show ?case by simp
next
  case (2 x) then show ?case by simp
next
  case (3 x y zs)
  show ?case
  proof
    assume "(a, b) \<in> set (adjacentPairs (x # y # zs))"
    then consider "a = x \<and> b = y" | "(a, b) \<in> set (adjacentPairs (y # zs))" by auto
    then show "\<exists>xs ys. x # y # zs = xs @ a # b # ys"
    proof cases
      case 1
      then have "x # y # zs = [] @ a # b # zs" by simp
      then show ?thesis by blast
    next
      case 2
      with 3 obtain xs ys where "y # zs = xs @ a # b # ys" by blast
      then have "x # y # zs = (x # xs) @ a # b # ys" by simp
      then show ?thesis by blast
    qed
  next
    assume "\<exists>xs ys. x # y # zs = xs @ a # b # ys"
    then obtain xs ys where e: "x # y # zs = xs @ a # b # ys" by blast
    show "(a, b) \<in> set (adjacentPairs (x # y # zs))"
    proof (cases xs)
      case Nil
      with e show ?thesis by simp
    next
      case (Cons x' xs')
      with e have "y # zs = xs' @ a # b # ys" by simp
      with 3 have "(a, b) \<in> set (adjacentPairs (y # zs))" by blast
      then show ?thesis by simp
    qed
  qed
qed

lemma split_at_first:
  assumes "v \<notin> set xs" "v \<notin> set xs'" "xs @ v # ys = xs' @ v # ys'"
  shows "xs = xs' \<and> ys = ys'"
  using assms
proof (induction xs arbitrary: xs')
  case Nil
  then show ?case by (cases xs') auto
next
  case (Cons a xs)
  from Cons.prems obtain xs'' where x: "xs' = a # xs''" by (cases xs') auto
  with Cons.prems have "v \<notin> set xs" "v \<notin> set xs''" "xs @ v # ys = xs'' @ v # ys'" by auto
  from Cons.IH [OF this] x show ?case by simp
qed

lemma distinct_split_unique:
  assumes "distinct (xs @ v # ys)" "xs @ v # ys = xs' @ v # ys'"
  shows "xs = xs' \<and> ys = ys'"
proof -
  from assms(1) have 1: "v \<notin> set xs" by simp
  from assms have "distinct (xs' @ v # ys')" by simp
  then have 2: "v \<notin> set xs'" by simp
  from split_at_first [OF 1 2 assms(2)] show ?thesis .
qed

lemma adjacentPairs_from:
  assumes "distinct (pre @ v # post)" "(v, b) \<in> set (adjacentPairs (pre @ v # post))"
  shows "\<exists>post'. post = b # post'"
proof -
  from assms(2) obtain xs ys where e: "pre @ v # post = xs @ v # b # ys"
    unfolding adjacentPairs_iff by blast
  from distinct_split_unique [OF assms(1) e] show ?thesis by blast
qed

lemma adjacentPairs_into:
  assumes "distinct (pre @ v # post)" "(a, v) \<in> set (adjacentPairs (pre @ v # post))"
  shows "\<exists>pre'. pre = pre' @ [a]"
proof -
  from assms(2) obtain xs ys where e: "pre @ v # post = (xs @ [a]) @ v # ys"
    unfolding adjacentPairs_iff by auto
  from distinct_split_unique [OF assms(1) e] show ?thesis by blast
qed

lemma adjacentPairs_rev:
  "(a, b) \<in> set (adjacentPairs (rev vs)) \<longleftrightarrow> (b, a) \<in> set (adjacentPairs vs)"
proof -
  have "(\<exists>xs ys. rev vs = xs @ a # b # ys) \<longleftrightarrow> (\<exists>xs ys. vs = xs @ b # a # ys)"
  proof
    assume "\<exists>xs ys. rev vs = xs @ a # b # ys"
    then obtain xs ys where "rev vs = xs @ a # b # ys" by blast
    then have "vs = rev (xs @ a # b # ys)" by (metis rev_rev_ident)
    then have "vs = rev ys @ b # a # rev xs" by simp
    then show "\<exists>xs ys. vs = xs @ b # a # ys" by blast
  next
    assume "\<exists>xs ys. vs = xs @ b # a # ys"
    then obtain xs ys where "vs = xs @ b # a # ys" by blast
    then have "rev vs = rev ys @ a # b # rev xs" by simp
    then show "\<exists>xs ys. rev vs = xs @ a # b # ys" by blast
  qed
  then show ?thesis unfolding adjacentPairs_iff .
qed

lemma adjacentPairs_suffix:
  "p \<in> set (adjacentPairs post) \<Longrightarrow> p \<in> set (adjacentPairs (pre @ post))"
proof -
  assume p: "p \<in> set (adjacentPairs post)"
  obtain a b where ab: "p = (a, b)" by (cases p)
  from p obtain xs ys where "post = xs @ a # b # ys" unfolding ab adjacentPairs_iff by blast
  then have "pre @ post = (pre @ xs) @ a # b # ys" by simp
  then show ?thesis unfolding ab adjacentPairs_iff by blast
qed

lemma noDuplicateEdge_remove1: "noDuplicateEdge U \<Longrightarrow> noDuplicateEdge (remove1 x U)"
  unfolding noDuplicateEdge_def by (auto dest: notin_set_remove1)

lemma walk_right:
  assumes "distinct (pre @ v # post)"
    and "noDuplicateEdge U"
    and "\<forall>e \<in> set U. \<exists>p \<in> set (adjacentPairs (pre @ v # post)). sameEdge e p"
    and "\<forall>p \<in> set (adjacentPairs (v # post)). \<exists>e \<in> set U. sameEdge e p"
    and "\<forall>a e. (a, v) \<in> set (adjacentPairs (pre @ v # post)) \<longrightarrow> e \<in> set U \<longrightarrow> \<not> sameEdge e (a, v)"
  shows "extendPath blocked U v = walkLen blocked post"
  using assms
proof (induction post arbitrary: pre v U)
  case Nil
  have "\<And>e. e \<in> set U \<Longrightarrow> \<not> incident e v"
  proof
    fix e assume e: "e \<in> set U" and inc: "incident e v"
    from Nil.prems(3) e obtain a b where p: "(a, b) \<in> set (adjacentPairs (pre @ [v]))"
      and s: "sameEdge e (a, b)" by auto
    from inc s have "v = a \<or> v = b" by (simp add: sameEdge_incident)
    then show False
    proof
      assume "v = a"
      with p adjacentPairs_from [OF Nil.prems(1), of b] show False by simp
    next
      assume "v = b"
      with p s e Nil.prems(5) show False by blast
    qed
  qed
  then show ?case by (simp add: extendPath_dead_end)
next
  case (Cons w post)
  let ?vs = "pre @ v # w # post"
  have vw: "v \<noteq> w" using Cons.prems(1) by auto
  from Cons.prems(4) obtain x where x: "x \<in> set U" and sx: "sameEdge x (v, w)" by auto
  have only: "\<And>e. e \<in> set U \<Longrightarrow> incident e v \<Longrightarrow> e = x"
  proof -
    fix e assume e: "e \<in> set U" and inc: "incident e v"
    from Cons.prems(3) e obtain a b where p: "(a, b) \<in> set (adjacentPairs ?vs)"
      and s: "sameEdge e (a, b)" by auto
    from inc s have "v = a \<or> v = b" by (simp add: sameEdge_incident)
    then have "sameEdge e (v, w)"
    proof
      assume "v = a"
      with p adjacentPairs_from [OF Cons.prems(1), of b] have "b = w" by simp
      with s \<open>v = a\<close> show ?thesis by simp
    next
      assume "v = b"
      with p s e Cons.prems(5) show ?thesis by blast
    qed
    then have "sameEdge e x" using sx sameEdge_sym sameEdge_trans by blast
    with e x Cons.prems(2) show "e = x" unfolding noDuplicateEdge_def by blast
  qed
  have dU: "distinct U" using Cons.prems(2) by (simp add: noDuplicateEdge_def)
  have incx: "incident x v" using sx by (simp add: sameEdge_incident)
  have f: "filter (\<lambda>e. incident e v) U = [x]"
    using dU x incx only by (rule filter_single)
  have oe: "otherEnd x v = w" using sameEdge_otherEnd [OF sx vw] by simp
  have step: "extendPath blocked U v
              = Suc (if blocked w then 0 else extendPath blocked (remove1 x U) w)"
    using extendPath_forced [OF f, of blocked] by (simp add: oe)
  have ih: "extendPath blocked (remove1 x U) w = walkLen blocked post"
  proof (rule Cons.IH [of "pre @ [v]" w "remove1 x U"])
    show "distinct ((pre @ [v]) @ w # post)" using Cons.prems(1) by simp
    show "noDuplicateEdge (remove1 x U)" using Cons.prems(2) by (rule noDuplicateEdge_remove1)
    show "\<forall>e \<in> set (remove1 x U). \<exists>p \<in> set (adjacentPairs ((pre @ [v]) @ w # post)). sameEdge e p"
      using Cons.prems(3) by (auto dest: notin_set_remove1)
    show "\<forall>p \<in> set (adjacentPairs (w # post)). \<exists>e \<in> set (remove1 x U). sameEdge e p"
    proof
      fix p assume p: "p \<in> set (adjacentPairs (w # post))"
      obtain a b where ab: "p = (a, b)" by (cases p)
      from p have "p \<in> set (adjacentPairs (v # w # post))" by simp
      with Cons.prems(4) obtain e where e: "e \<in> set U" and se: "sameEdge e p" by blast
      from p ab adjacentPairs_mem [of a b "w # post"] have "a \<in> set (w # post)" "b \<in> set (w # post)"
        by simp_all
      with Cons.prems(1) have "a \<noteq> v" "b \<noteq> v" by auto
      then have "\<not> sameEdge (a, b) (v, w)" by (simp add: sameEdge_pairs)
      with se sx ab have "e \<noteq> x" using sameEdge_sym sameEdge_trans by blast
      with e have "e \<in> set (remove1 x U)" by simp
      with se show "\<exists>e \<in> set (remove1 x U). sameEdge e p" by blast
    qed
    show "\<forall>a e. (a, w) \<in> set (adjacentPairs ((pre @ [v]) @ w # post)) \<longrightarrow>
            e \<in> set (remove1 x U) \<longrightarrow> \<not> sameEdge e (a, w)"
    proof (intro allI impI)
      fix a e assume a: "(a, w) \<in> set (adjacentPairs ((pre @ [v]) @ w # post))"
        and e: "e \<in> set (remove1 x U)"
      have d: "distinct ((pre @ [v]) @ w # post)" using Cons.prems(1) by simp
      from adjacentPairs_into [OF d a] have av: "a = v" by auto
      have eU: "e \<in> set U" using e set_remove1_subset by fast
      have "e \<noteq> x" using e dU by auto
      show "\<not> sameEdge e (a, w)"
      proof
        assume "sameEdge e (a, w)"
        with av sx have "sameEdge e x" using sameEdge_sym sameEdge_trans by blast
        with eU x Cons.prems(2) have "e = x" unfolding noDuplicateEdge_def by blast
        with \<open>e \<noteq> x\<close> show False by simp
      qed
    qed
  qed
  show ?case by (simp add: step ih)
qed

lemma sameEdge_flip: "sameEdge e (a, b) \<Longrightarrow> sameEdge e (b, a)"
  by (auto simp: sameEdge_def)

lemma walk_left:
  assumes dv: "distinct (pre @ v # post)"
    and nd: "noDuplicateEdge U"
    and onpath: "\<forall>e \<in> set U. \<exists>p \<in> set (adjacentPairs (pre @ v # post)). sameEdge e p"
    and present: "\<forall>p \<in> set (adjacentPairs (pre @ [v])). \<exists>e \<in> set U. sameEdge e p"
    and absent: "\<forall>b e. (v, b) \<in> set (adjacentPairs (pre @ v # post)) \<longrightarrow> e \<in> set U \<longrightarrow> \<not> sameEdge e (v, b)"
  shows "extendPath blocked U v = walkLen blocked (rev pre)"
proof (rule walk_right [of "rev post" v "rev pre" U])
  have r: "rev post @ v # rev pre = rev (pre @ v # post)" by simp
  show "distinct (rev post @ v # rev pre)" unfolding r using dv by (simp only: distinct_rev)
  show "noDuplicateEdge U" by (rule nd)
  show "\<forall>e \<in> set U. \<exists>p \<in> set (adjacentPairs (rev post @ v # rev pre)). sameEdge e p"
  proof
    fix e assume "e \<in> set U"
    with onpath obtain a b where p: "(a, b) \<in> set (adjacentPairs (pre @ v # post))"
      and s: "sameEdge e (a, b)" by auto
    from p have "(b, a) \<in> set (adjacentPairs (rev (pre @ v # post)))" by (simp only: adjacentPairs_rev)
    moreover from s have "sameEdge e (b, a)" by (rule sameEdge_flip)
    ultimately show "\<exists>p \<in> set (adjacentPairs (rev post @ v # rev pre)). sameEdge e p"
      unfolding r by blast
  qed
  show "\<forall>p \<in> set (adjacentPairs (v # rev pre)). \<exists>e \<in> set U. sameEdge e p"
  proof
    fix p assume p: "p \<in> set (adjacentPairs (v # rev pre))"
    obtain a b where ab: "p = (a, b)" by (cases p)
    from p have "(a, b) \<in> set (adjacentPairs (v # rev pre))" unfolding ab .
    then have "(a, b) \<in> set (adjacentPairs (rev (pre @ [v])))" by simp
    then have "(b, a) \<in> set (adjacentPairs (pre @ [v]))" by (simp only: adjacentPairs_rev)
    with present obtain e where e: "e \<in> set U" and s: "sameEdge e (b, a)" by blast
    from s have "sameEdge e (a, b)" by (rule sameEdge_flip)
    with e ab show "\<exists>e \<in> set U. sameEdge e p" by blast
  qed
  show "\<forall>a e. (a, v) \<in> set (adjacentPairs (rev post @ v # rev pre)) \<longrightarrow> e \<in> set U \<longrightarrow> \<not> sameEdge e (a, v)"
  proof (intro allI impI)
    fix a e assume a: "(a, v) \<in> set (adjacentPairs (rev post @ v # rev pre))" and e: "e \<in> set U"
    from a have "(v, a) \<in> set (adjacentPairs (pre @ v # post))" unfolding r by (simp only: adjacentPairs_rev)
    with absent e have n: "\<not> sameEdge e (v, a)" by blast
    show "\<not> sameEdge e (a, v)"
    proof
      assume "sameEdge e (a, v)"
      then have "sameEdge e (v, a)" by (rule sameEdge_flip)
      with n show False by simp
    qed
  qed
qed

text \<open>The value of the branch that leaves \<open>v\<close> towards its successor on the path.\<close>

lemma branch_right:
  assumes dv: "distinct (pre @ v # w # post)"
    and nd: "noDuplicateEdge U"
    and onpath: "\<forall>e \<in> set U. \<exists>p \<in> set (adjacentPairs (pre @ v # w # post)). sameEdge e p"
    and present: "\<forall>p \<in> set (adjacentPairs (w # post)). \<exists>e \<in> set U. sameEdge e p"
    and x: "x \<in> set U" "sameEdge x (v, w)"
  shows "Suc (if blocked (otherEnd x v) then 0
              else extendPath blocked (remove1 x U) (otherEnd x v)) = walkLen blocked (w # post)"
proof -
  have vw: "v \<noteq> w" using dv by auto
  have oe: "otherEnd x v = w" using sameEdge_otherEnd [OF x(2) vw] by simp
  have dU: "distinct U" using nd by (simp add: noDuplicateEdge_def)
  have "extendPath blocked (remove1 x U) w = walkLen blocked post"
  proof (rule walk_right [of "pre @ [v]" w post "remove1 x U"])
    show "distinct ((pre @ [v]) @ w # post)" using dv by simp
    show "noDuplicateEdge (remove1 x U)" using nd by (rule noDuplicateEdge_remove1)
    show "\<forall>e \<in> set (remove1 x U). \<exists>p \<in> set (adjacentPairs ((pre @ [v]) @ w # post)). sameEdge e p"
    proof
      fix e assume "e \<in> set (remove1 x U)"
      then have "e \<in> set U" using set_remove1_subset by fast
      with onpath show "\<exists>p \<in> set (adjacentPairs ((pre @ [v]) @ w # post)). sameEdge e p" by simp
    qed
    show "\<forall>p \<in> set (adjacentPairs (w # post)). \<exists>e \<in> set (remove1 x U). sameEdge e p"
    proof
      fix p assume p: "p \<in> set (adjacentPairs (w # post))"
      obtain a b where ab: "p = (a, b)" by (cases p)
      from present p obtain e where e: "e \<in> set U" and se: "sameEdge e p" by blast
      from p ab adjacentPairs_mem [of a b "w # post"] have "a \<in> set (w # post)" "b \<in> set (w # post)"
        by simp_all
      with dv have "a \<noteq> v" "b \<noteq> v" by auto
      then have "\<not> sameEdge (a, b) (v, w)" by (simp add: sameEdge_pairs)
      with se x(2) ab have "e \<noteq> x" using sameEdge_sym sameEdge_trans by blast
      with e have "e \<in> set (remove1 x U)" by simp
      with se show "\<exists>e \<in> set (remove1 x U). sameEdge e p" by blast
    qed
    show "\<forall>a e. (a, w) \<in> set (adjacentPairs ((pre @ [v]) @ w # post)) \<longrightarrow>
            e \<in> set (remove1 x U) \<longrightarrow> \<not> sameEdge e (a, w)"
    proof (intro allI impI)
      fix a e assume a: "(a, w) \<in> set (adjacentPairs ((pre @ [v]) @ w # post))"
        and e: "e \<in> set (remove1 x U)"
      have d: "distinct ((pre @ [v]) @ w # post)" using dv by simp
      from adjacentPairs_into [OF d a] have av: "a = v" by auto
      have eU: "e \<in> set U" using e set_remove1_subset by fast
      have "e \<noteq> x" using e dU by auto
      show "\<not> sameEdge e (a, w)"
      proof
        assume "sameEdge e (a, w)"
        with av x(2) have "sameEdge e x" using sameEdge_sym sameEdge_trans by blast
        with eU x(1) nd have "e = x" unfolding noDuplicateEdge_def by blast
        with \<open>e \<noteq> x\<close> show False by simp
      qed
    qed
  qed
  then show ?thesis by (simp add: oe)
qed

lemma edgesAlong_rev: "edgesAlong U vs \<Longrightarrow> edgesAlong U (rev vs)"
proof -
  assume ea: "edgesAlong U vs"
  have 1: "\<forall>e \<in> set U. \<exists>p \<in> set (adjacentPairs (rev vs)). sameEdge e p"
  proof
    fix e assume "e \<in> set U"
    with ea obtain a b where p: "(a, b) \<in> set (adjacentPairs vs)" and s: "sameEdge e (a, b)"
      unfolding edgesAlong_def by auto
    from p have "(b, a) \<in> set (adjacentPairs (rev vs))" by (simp only: adjacentPairs_rev)
    moreover from s have "sameEdge e (b, a)" by (rule sameEdge_flip)
    ultimately show "\<exists>p \<in> set (adjacentPairs (rev vs)). sameEdge e p" by blast
  qed
  have 2: "\<forall>p \<in> set (adjacentPairs (rev vs)). \<exists>e \<in> set U. sameEdge e p"
  proof
    fix p assume p: "p \<in> set (adjacentPairs (rev vs))"
    obtain a b where ab: "p = (a, b)" by (cases p)
    from p have "(a, b) \<in> set (adjacentPairs (rev vs))" unfolding ab .
    then have "(b, a) \<in> set (adjacentPairs vs)" by (simp only: adjacentPairs_rev)
    with ea obtain e where e: "e \<in> set U" and s: "sameEdge e (b, a)" unfolding edgesAlong_def by blast
    from s have "sameEdge e (a, b)" by (rule sameEdge_flip)
    with e ab show "\<exists>e \<in> set U. sameEdge e p" by blast
  qed
  from 1 2 show ?thesis unfolding edgesAlong_def by blast
qed

lemma walkLen_unblocked: "\<forall>w \<in> set ws. \<not> blocked w \<Longrightarrow> walkLen blocked ws = length ws"
  by (induction ws) simp_all

lemma walkLen_stop:
  "\<forall>w \<in> set ws. \<not> blocked w \<Longrightarrow> blocked b \<Longrightarrow> walkLen blocked (ws @ b # rest) = Suc (length ws)"
  by (induction ws) simp_all

lemma walkLen_last:
  "\<forall>w \<in> set ws. \<not> blocked w \<Longrightarrow> walkLen blocked (ws @ [c]) = Suc (length ws)"
  by (induction ws) simp_all

lemma edgesAlong_onpath:
  "edgesAlong U vs \<Longrightarrow> \<forall>e \<in> set U. \<exists>p \<in> set (adjacentPairs vs). sameEdge e p"
  by (simp add: edgesAlong_def)

lemma edgesAlong_present_suffix:
  assumes "edgesAlong U (pre @ post)"
  shows "\<forall>p \<in> set (adjacentPairs post). \<exists>e \<in> set U. sameEdge e p"
proof
  fix p assume "p \<in> set (adjacentPairs post)"
  then have "p \<in> set (adjacentPairs (pre @ post))" by (rule adjacentPairs_suffix)
  with assms show "\<exists>e \<in> set U. sameEdge e p" unfolding edgesAlong_def by blast
qed

text \<open>On a simple path every branch out of a node has the value of the walk to one of
  the two ends.\<close>

lemma branch_on_path:
  assumes dv: "distinct (pre @ v # post)" and nd: "noDuplicateEdge U"
    and ea: "edgesAlong U (pre @ v # post)"
    and e: "e \<in> set U" "incident e v"
  shows "(post \<noteq> [] \<and> sameEdge e (v, hd post)
            \<and> Suc (if blocked (otherEnd e v) then 0
                    else extendPath blocked (remove1 e U) (otherEnd e v)) = walkLen blocked post)
       \<or> (pre \<noteq> [] \<and> sameEdge e (last pre, v)
            \<and> Suc (if blocked (otherEnd e v) then 0
                    else extendPath blocked (remove1 e U) (otherEnd e v)) = walkLen blocked (rev pre))"
proof -
  from edgesAlong_onpath [OF ea] e(1) obtain a b where
    p: "(a, b) \<in> set (adjacentPairs (pre @ v # post))" and s: "sameEdge e (a, b)" by auto
  from e(2) s have "v = a \<or> v = b" by (simp add: sameEdge_incident)
  then show ?thesis
  proof
    assume va: "v = a"
    with p adjacentPairs_from [OF dv, of b] obtain post' where post: "post = b # post'" by auto
    have s': "sameEdge e (v, b)" using s va by simp
    have pres: "\<forall>p \<in> set (adjacentPairs (b # post')). \<exists>e \<in> set U. sameEdge e p"
      using edgesAlong_present_suffix [of U "pre @ [v]" "b # post'"] ea post by simp
    have val: "Suc (if blocked (otherEnd e v) then 0
               else extendPath blocked (remove1 e U) (otherEnd e v)) = walkLen blocked (b # post')"
      using dv nd edgesAlong_onpath [OF ea] pres e(1) s' unfolding post
      by (rule branch_right)
    have sr: "sameEdge e (v, hd post)" using s' by (simp add: post)
    have ne: "post \<noteq> []" by (simp add: post)
    from ne sr val show ?thesis unfolding post by blast
  next
    assume vb: "v = b"
    with p adjacentPairs_into [OF dv, of a] obtain pre' where pre: "pre = pre' @ [a]" by auto
    have s': "sameEdge e (v, a)" using s vb by (simp add: sameEdge_flip)
    have r: "rev (pre @ v # post) = rev post @ v # a # rev pre'" by (simp add: pre)
    have dv': "distinct (rev post @ v # a # rev pre')"
      using dv unfolding r [symmetric] by (simp only: distinct_rev)
    have ea': "edgesAlong U (rev post @ v # a # rev pre')"
      using edgesAlong_rev [OF ea] unfolding r .
    have pres: "\<forall>p \<in> set (adjacentPairs (a # rev pre')). \<exists>e \<in> set U. sameEdge e p"
      using edgesAlong_present_suffix [of U "rev post @ [v]" "a # rev pre'"] ea' by simp
    have val: "Suc (if blocked (otherEnd e v) then 0
               else extendPath blocked (remove1 e U) (otherEnd e v)) = walkLen blocked (a # rev pre')"
      using dv' nd edgesAlong_onpath [OF ea'] pres e(1) s'
      by (rule branch_right)
    have val': "Suc (if blocked (otherEnd e v) then 0
               else extendPath blocked (remove1 e U) (otherEnd e v)) = walkLen blocked (rev pre)"
      using val by (simp add: pre)
    have sl: "sameEdge e (last pre, v)" using s vb by (simp add: pre)
    have ne: "pre \<noteq> []" by (simp add: pre)
    from ne sl val' show ?thesis by blast
  qed
qed

lemma extendPath_on_path:
  assumes dv: "distinct (pre @ v # post)" and nd: "noDuplicateEdge U"
    and ea: "edgesAlong U (pre @ v # post)"
  shows "extendPath blocked U v = max (walkLen blocked post) (walkLen blocked (rev pre))"
proof (rule antisym)
  let ?f = "\<lambda>e. Suc (if blocked (otherEnd e v) then 0
                       else extendPath blocked (remove1 e U) (otherEnd e v))"
  have unfold: "extendPath blocked U v = maxList (map ?f (filter (\<lambda>e. incident e v) U))"
    by (subst extendPath.simps) (rule refl)
  show "extendPath blocked U v \<le> max (walkLen blocked post) (walkLen blocked (rev pre))"
    unfolding unfold
  proof (rule maxList_le)
    fix e assume "e \<in> set (filter (\<lambda>e. incident e v) U)"
    then have e: "e \<in> set U" "incident e v" by simp_all
    from branch_on_path [OF dv nd ea e, of blocked]
    show "?f e \<le> max (walkLen blocked post) (walkLen blocked (rev pre))" by auto
  qed
  have right: "walkLen blocked post \<le> extendPath blocked U v"
  proof (cases post)
    case Nil
    then show ?thesis by simp
  next
    case (Cons w post')
    have "(v, w) \<in> set (adjacentPairs (pre @ v # post))"
      unfolding adjacentPairs_iff Cons by blast
    with ea obtain x where x: "x \<in> set U" and sx: "sameEdge x (v, w)"
      unfolding edgesAlong_def by blast
    have vw: "v \<noteq> w" using dv Cons by auto
    have inc: "incident x v" using sx by (simp add: sameEdge_incident)
    from branch_on_path [OF dv nd ea x inc, of blocked]
    have "?f x = walkLen blocked post"
    proof
      assume "post \<noteq> [] \<and> sameEdge x (v, hd post) \<and> ?f x = walkLen blocked post"
      then show ?thesis by simp
    next
      assume l: "pre \<noteq> [] \<and> sameEdge x (last pre, v) \<and> ?f x = walkLen blocked (rev pre)"
      then have "sameEdge (v, w) (last pre, v)" using sx sameEdge_sym sameEdge_trans by blast
      then have "w = last pre" using vw by (auto simp: sameEdge_pairs)
      moreover have "last pre \<in> set pre" using l by simp
      ultimately have False using dv Cons by auto
      then show ?thesis ..
    qed
    with extendPath_branch_ge [OF x inc, of blocked] show ?thesis by simp
  qed
  have left: "walkLen blocked (rev pre) \<le> extendPath blocked U v"
  proof (cases pre rule: rev_cases)
    case Nil
    then show ?thesis by simp
  next
    case (snoc pre' a)
    have "(a, v) \<in> set (adjacentPairs (pre @ v # post))"
      unfolding adjacentPairs_iff snoc by auto
    with ea obtain x where x: "x \<in> set U" and sx: "sameEdge x (a, v)"
      unfolding edgesAlong_def by blast
    have av: "a \<noteq> v" using dv snoc by auto
    have inc: "incident x v" using sx by (simp add: sameEdge_incident)
    from branch_on_path [OF dv nd ea x inc, of blocked]
    have "?f x = walkLen blocked (rev pre)"
    proof
      assume r: "post \<noteq> [] \<and> sameEdge x (v, hd post) \<and> ?f x = walkLen blocked post"
      then have "sameEdge (a, v) (v, hd post)" using sx sameEdge_sym sameEdge_trans by blast
      then have "a = hd post" using av by (auto simp: sameEdge_pairs)
      moreover have "hd post \<in> set post" using r by simp
      ultimately have False using dv snoc by auto
      then show ?thesis ..
    next
      assume "pre \<noteq> [] \<and> sameEdge x (last pre, v) \<and> ?f x = walkLen blocked (rev pre)"
      then show ?thesis by simp
    qed
    with extendPath_branch_ge [OF x inc, of blocked] show ?thesis by simp
  qed
  from right left
  show "max (walkLen blocked post) (walkLen blocked (rev pre)) \<le> extendPath blocked U v" by simp
qed

lemma graphNodes_iff: "v \<in> set (graphNodes es) \<longleftrightarrow> (\<exists>e \<in> set es. incident e v)"
  by (auto simp: graphNodes_def incident_def)

lemma graphNodes_on_path:
  assumes "edgesAlong net vs" "v \<in> set (graphNodes net)"
  shows "v \<in> set vs"
proof -
  from assms(2) obtain e where e: "e \<in> set net" "incident e v" unfolding graphNodes_iff by blast
  with assms(1) obtain a b where p: "(a, b) \<in> set (adjacentPairs vs)" and s: "sameEdge e (a, b)"
    unfolding edgesAlong_def by auto
  from e(2) s have "v = a \<or> v = b" by (simp add: sameEdge_incident)
  with adjacentPairs_mem [OF p] show ?thesis by auto
qed

lemma graphNodes_pair:
  assumes "edgesAlong net vs" "(a, b) \<in> set (adjacentPairs vs)"
  shows "a \<in> set (graphNodes net)" "b \<in> set (graphNodes net)"
proof -
  from assms obtain e where e: "e \<in> set net" and s: "sameEdge e (a, b)"
    unfolding edgesAlong_def by blast
  from s have "incident e a" "incident e b" by (simp_all add: sameEdge_incident)
  with e show "a \<in> set (graphNodes net)" "b \<in> set (graphNodes net)"
    unfolding graphNodes_iff by blast+
qed

lemma longestPath_le:
  assumes "\<And>v. v \<in> set (graphNodes net) \<Longrightarrow> extendPath blocked net v \<le> k"
  shows "longestPath blocked net \<le> k"
  unfolding longestPath_def using assms by (rule maxList_le)

lemma longestPath_ge:
  assumes "v \<in> set (graphNodes net)"
  shows "extendPath blocked net v \<le> longestPath blocked net"
  unfolding longestPath_def using assms by (rule maxList_ge)

text \<open>A simple path with an opponent on one inner node: the longer of the two parts.\<close>

lemma longestPath_cut:
  assumes dv: "distinct (A @ b # B)" and ne: "A \<noteq> []"
    and nd: "noDuplicateEdge net" and ea: "edgesAlong net (A @ b # B)"
    and bl: "blocked b" and free: "\<forall>v \<in> set A \<union> set B. \<not> blocked v"
  shows "longestPath blocked net = max (length A) (length B)"
proof (rule antisym)
  have freeA: "\<forall>w \<in> set A. \<not> blocked w" and freeB: "\<forall>w \<in> set B. \<not> blocked w"
    using free by auto
  have at_b: "extendPath blocked net b = max (length B) (length A)"
    using extendPath_on_path [OF dv nd ea, of blocked] freeA freeB
    by (simp add: walkLen_unblocked)
  show "longestPath blocked net \<le> max (length A) (length B)"
  proof (rule longestPath_le)
    fix v assume "v \<in> set (graphNodes net)"
    then have "v \<in> set (A @ b # B)" using graphNodes_on_path [OF ea] by blast
    then consider (inA) "v \<in> set A" | (isb) "v = b" | (inB) "v \<in> set B" by auto
    then show "extendPath blocked net v \<le> max (length A) (length B)"
    proof cases
      case inA
      then obtain A1 A2 where A: "A = A1 @ v # A2" by (meson split_list)
      have l: "A @ b # B = A1 @ v # (A2 @ b # B)" by (simp add: A)
      have f1: "\<forall>w \<in> set A1. \<not> blocked w" and f2: "\<forall>w \<in> set A2. \<not> blocked w"
        using freeA unfolding A by auto
      have "extendPath blocked net v
            = max (walkLen blocked (A2 @ b # B)) (walkLen blocked (rev A1))"
        using dv nd ea unfolding l by (rule extendPath_on_path)
      also have "\<dots> = max (Suc (length A2)) (length A1)"
        using f1 f2 bl by (simp add: walkLen_stop walkLen_unblocked)
      also have "\<dots> \<le> length A" by (simp add: A)
      finally show ?thesis by simp
    next
      case isb
      with at_b show ?thesis by simp
    next
      case inB
      then obtain B1 B2 where B: "B = B1 @ v # B2" by (meson split_list)
      have l: "A @ b # B = (A @ b # B1) @ v # B2" by (simp add: B)
      have f1: "\<forall>w \<in> set (rev B1). \<not> blocked w" and f2: "\<forall>w \<in> set B2. \<not> blocked w"
        using freeB unfolding B by auto
      have "extendPath blocked net v
            = max (walkLen blocked B2) (walkLen blocked (rev (A @ b # B1)))"
        using dv nd ea unfolding l by (rule extendPath_on_path)
      also have "rev (A @ b # B1) = rev B1 @ b # rev A" by simp
      also have "max (walkLen blocked B2) (walkLen blocked (rev B1 @ b # rev A))
                   = max (length B2) (Suc (length B1))"
        using f2 walkLen_stop [OF f1 bl, of "rev A"] by (simp add: walkLen_unblocked)
      also have "\<dots> \<le> length B" by (simp add: B)
      finally show ?thesis by simp
    qed
  qed
  obtain A' a where A: "A = A' @ [a]" using ne by (cases A rule: rev_cases) auto
  have "(a, b) \<in> set (adjacentPairs (A @ b # B))" unfolding adjacentPairs_iff A by auto
  from graphNodes_pair(2) [OF ea this] have "b \<in> set (graphNodes net)" .
  from longestPath_ge [OF this, of blocked] at_b
  show "max (length A) (length B) \<le> longestPath blocked net" by (simp add: max.commute)
qed

text \<open>A simple path with no opponent on it: all of its edges.\<close>

lemma longestPath_uncut:
  assumes dv: "distinct (v # w # rest)"
    and nd: "noDuplicateEdge net" and ea: "edgesAlong net (v # w # rest)"
    and free: "\<forall>x \<in> set (v # w # rest). \<not> blocked x"
  shows "longestPath blocked net = Suc (length rest)"
proof (rule antisym)
  let ?vs = "v # w # rest"
  show "longestPath blocked net \<le> Suc (length rest)"
  proof (rule longestPath_le)
    fix x assume "x \<in> set (graphNodes net)"
    then have "x \<in> set ?vs" using graphNodes_on_path [OF ea] by blast
    then obtain pre post where l: "?vs = pre @ x # post" by (meson split_list)
    have len: "length pre + length post = Suc (length rest)"
      using arg_cong [OF l, of length] by simp
    have f1: "\<forall>y \<in> set post. \<not> blocked y" and f2: "\<forall>y \<in> set (rev pre). \<not> blocked y"
      using free unfolding l by auto
    have "extendPath blocked net x = max (walkLen blocked post) (walkLen blocked (rev pre))"
      using dv nd ea unfolding l by (rule extendPath_on_path)
    also have "\<dots> = max (length post) (length pre)"
      using f1 f2 by (simp add: walkLen_unblocked)
    finally show "extendPath blocked net x \<le> Suc (length rest)" using len by simp
  qed
  have d0: "distinct ([] @ v # w # rest)" using dv by simp
  have e0: "edgesAlong net ([] @ v # w # rest)" using ea by simp
  have "extendPath blocked net v = max (walkLen blocked (w # rest)) (walkLen blocked (rev []))"
    using d0 nd e0 by (rule extendPath_on_path)
  also have "walkLen blocked (w # rest) = length (w # rest)"
    using free by (intro walkLen_unblocked) simp
  finally have at_v: "extendPath blocked net v = Suc (length rest)" by simp
  have "(v, w) \<in> set (adjacentPairs ?vs)" by simp
  from graphNodes_pair(1) [OF ea this] have "v \<in> set (graphNodes net)" .
  from longestPath_ge [OF this, of blocked] at_v
  show "Suc (length rest) \<le> longestPath blocked net" by simp
qed

lemma edges_count_le:
  assumes nd: "noDuplicateEdge net"
    and onpath: "\<forall>e \<in> set net. \<exists>p \<in> set (adjacentPairs vs). sameEdge e p"
  shows "length net \<le> length vs - 1"
proof -
  have "card (set net) \<le> card (set (adjacentPairs vs))"
  proof (rule card_le_if_inj_on_rel [where r = sameEdge])
    show "finite (set (adjacentPairs vs))" by simp
    show "\<And>a. a \<in> set net \<Longrightarrow> \<exists>b. b \<in> set (adjacentPairs vs) \<and> sameEdge a b"
      using onpath by blast
    show "\<And>a1 a2 b. a1 \<in> set net \<Longrightarrow> a2 \<in> set net \<Longrightarrow> b \<in> set (adjacentPairs vs)
            \<Longrightarrow> sameEdge a1 b \<Longrightarrow> sameEdge a2 b \<Longrightarrow> a1 = a2"
    proof -
      fix a1 a2 b assume m: "a1 \<in> set net" "a2 \<in> set net" and s: "sameEdge a1 b" "sameEdge a2 b"
      from s have "sameEdge a1 a2" using sameEdge_sym sameEdge_trans by blast
      with m nd show "a1 = a2" unfolding noDuplicateEdge_def by blast
    qed
  qed
  also have "\<dots> \<le> length (adjacentPairs vs)" by (rule card_length)
  also have "\<dots> = length vs - 1" by (simp add: adjacentPairs_def)
  finally have "card (set net) \<le> length vs - 1" .
  moreover have "card (set net) = length net"
    using nd by (simp add: noDuplicateEdge_def distinct_card)
  ultimately show ?thesis by simp
qed

text \<open>A simple cycle with an opponent on at most one node: all of its edges. The walk
  starts on the occupied node if there is one, goes round, and ends where it started.\<close>

lemma longestPath_cycle:
  assumes dv: "distinct (c # c1 # c2 # cs)"
    and nd: "noDuplicateEdge net" and ea: "edgesAlong net (c # c1 # c2 # cs @ [c])"
    and free: "\<forall>v \<in> set (c1 # c2 # cs). \<not> blocked v"
  shows "longestPath blocked net = length (c # c1 # c2 # cs)"
proof (rule antisym)
  let ?cyc = "c # c1 # c2 # cs @ [c]"
  have len: "length net \<le> length (c # c1 # c2 # cs)"
    using edges_count_le [OF nd edgesAlong_onpath [OF ea]] by simp
  show "longestPath blocked net \<le> length (c # c1 # c2 # cs)"
  proof (rule longestPath_le)
    fix v
    have "extendPath blocked net v \<le> length net" by (rule extendPath_le_length)
    with len show "extendPath blocked net v \<le> length (c # c1 # c2 # cs)" by simp
  qed
  have in_cyc: "(c, c1) \<in> set (adjacentPairs ?cyc)" by simp
  with ea obtain x where x: "x \<in> set net" and sx: "sameEdge x (c, c1)"
    unfolding edgesAlong_def by blast
  have cc1: "c \<noteq> c1" using dv by auto
  have oe: "otherEnd x c = c1" using sameEdge_otherEnd [OF sx cc1] by simp
  have inc: "incident x c" using sx by (simp add: sameEdge_incident)
  have dU: "distinct net" using nd by (simp add: noDuplicateEdge_def)
  let ?U = "remove1 x net"
  let ?path = "c1 # c2 # cs @ [c]"
  have dpath: "distinct ([] @ c1 # (c2 # cs @ [c]))" using dv by auto
  have not_first: "\<And>p. p \<in> set (adjacentPairs ?path) \<Longrightarrow> \<not> sameEdge p (c, c1)"
  proof
    fix p assume p: "p \<in> set (adjacentPairs ?path)" and s: "sameEdge p (c, c1)"
    obtain a b where ab: "p = (a, b)" by (cases p)
    from p obtain xs ys where l: "?path = xs @ a # b # ys" unfolding ab adjacentPairs_iff by blast
    from s have "(a = c \<and> b = c1) \<or> (a = c1 \<and> b = c)" unfolding ab by (simp add: sameEdge_pairs)
    then show False
    proof
      assume "a = c \<and> b = c1"
      then have l': "c1 # c2 # cs @ [c] = xs @ c # c1 # ys" using l by simp
      have "distinct (xs @ c # c1 # ys)" using dpath unfolding l' [symmetric] by simp
      moreover have "xs \<noteq> []" using l' cc1 by (cases xs) auto
      then have "c1 \<in> set xs" using l' by (cases xs) auto
      ultimately show False by auto
    next
      assume "a = c1 \<and> b = c"
      then have l': "c1 # c2 # cs @ [c] = xs @ c1 # c # ys" using l by simp
      have d: "distinct (xs @ c1 # c # ys)" using dpath unfolding l' [symmetric] by simp
      have "xs = []"
      proof (cases xs)
        case Nil then show ?thesis .
      next
        case (Cons y ys')
        with l' have "y = c1" by simp
        with Cons d show ?thesis by simp
      qed
      with l' have "c2 = c" by simp
      with dv show False by simp
    qed
  qed
  have walk: "extendPath blocked ?U c1 = walkLen blocked (c2 # cs @ [c])"
  proof (rule walk_right [of "[]" c1 "c2 # cs @ [c]" ?U])
    show "distinct ([] @ c1 # c2 # cs @ [c])" using dpath by simp
    show "noDuplicateEdge ?U" using nd by (rule noDuplicateEdge_remove1)
    show "\<forall>e \<in> set ?U. \<exists>p \<in> set (adjacentPairs ([] @ c1 # c2 # cs @ [c])). sameEdge e p"
    proof
      fix e assume e: "e \<in> set ?U"
      then have eU: "e \<in> set net" using set_remove1_subset by fast
      have ex: "e \<noteq> x" using e dU by auto
      from ea eU obtain p where p: "p \<in> set (adjacentPairs ?cyc)" and s: "sameEdge e p"
        unfolding edgesAlong_def by blast
      have "p \<noteq> (c, c1)"
      proof
        assume "p = (c, c1)"
        with s sx have "sameEdge e x" using sameEdge_sym sameEdge_trans by blast
        with eU x nd have "e = x" unfolding noDuplicateEdge_def by blast
        with ex show False by simp
      qed
      with p have "p \<in> set (adjacentPairs ?path)" by simp
      with s show "\<exists>p \<in> set (adjacentPairs ([] @ c1 # c2 # cs @ [c])). sameEdge e p" by auto
    qed
    show "\<forall>p \<in> set (adjacentPairs (c1 # c2 # cs @ [c])). \<exists>e \<in> set ?U. sameEdge e p"
    proof
      fix p assume p: "p \<in> set (adjacentPairs (c1 # c2 # cs @ [c]))"
      then have "p \<in> set (adjacentPairs ?cyc)" by simp
      with ea obtain e where e: "e \<in> set net" and s: "sameEdge e p"
        unfolding edgesAlong_def by blast
      have "e \<noteq> x"
      proof
        assume "e = x"
        with s sx have "sameEdge p (c, c1)" using sameEdge_sym sameEdge_trans by blast
        with not_first [OF p] show False by simp
      qed
      with e have "e \<in> set ?U" by simp
      with s show "\<exists>e \<in> set ?U. sameEdge e p" by blast
    qed
    show "\<forall>a e. (a, c1) \<in> set (adjacentPairs ([] @ c1 # c2 # cs @ [c])) \<longrightarrow>
            e \<in> set ?U \<longrightarrow> \<not> sameEdge e (a, c1)"
    proof (intro allI impI)
      fix a e assume "(a, c1) \<in> set (adjacentPairs ([] @ c1 # c2 # cs @ [c]))"
      from adjacentPairs_into [OF dpath this] show "\<not> sameEdge e (a, c1)" by simp
    qed
  qed
  have "walkLen blocked (c2 # cs @ [c]) = Suc (length (c2 # cs))"
    using walkLen_last [of "c2 # cs" blocked c] free by simp
  with walk have "extendPath blocked ?U c1 = Suc (Suc (length cs))" by simp
  moreover have "\<not> blocked c1" using free by simp
  ultimately have "Suc (if blocked (otherEnd x c) then 0
        else extendPath blocked ?U (otherEnd x c)) = length (c # c1 # c2 # cs)"
    by (simp add: oe)
  with extendPath_branch_ge [OF x inc, of blocked]
  have "length (c # c1 # c2 # cs) \<le> extendPath blocked net c" by simp
  moreover have "c \<in> set (graphNodes net)" using graphNodes_pair(1) [OF ea in_cyc] .
  ultimately show "length (c # c1 # c2 # cs) \<le> longestPath blocked net"
    using longestPath_ge [of c net blocked] by simp
qed

section \<open>The longest road on the board\<close>

lemma dedupEdges_subset: "set (dedupEdges es) \<subseteq> set es"
  by (induction es) auto

lemma dedupEdges_noDuplicate: "noDuplicateEdge (dedupEdges es)"
proof (induction es)
  case Nil
  then show ?case by (simp add: noDuplicateEdge_def)
next
  case (Cons e es)
  show ?case
  proof (cases "list_ex (sameEdge e) es")
    case True
    with Cons show ?thesis by simp
  next
    case False
    then have no: "\<And>y. y \<in> set es \<Longrightarrow> \<not> sameEdge e y" by (simp add: list_ex_iff)
    have sub: "\<And>y. y \<in> set (dedupEdges es) \<Longrightarrow> y \<in> set es" using dedupEdges_subset by fast
    have "e \<notin> set (dedupEdges es)"
    proof
      assume "e \<in> set (dedupEdges es)"
      then have "e \<in> set es" by (rule sub)
      from no [OF this] show False by simp
    qed
    moreover have "\<And>y. y \<in> set (dedupEdges es) \<Longrightarrow> \<not> sameEdge e y \<and> \<not> sameEdge y e"
      using no sub sameEdge_sym by blast
    ultimately show ?thesis using Cons False unfolding noDuplicateEdge_def by auto
  qed
qed

lemma dedupEdges_represents: "e \<in> set es \<Longrightarrow> \<exists>e' \<in> set (dedupEdges es). sameEdge e e'"
proof (induction es arbitrary: e)
  case Nil
  then show ?case by simp
next
  case (Cons x es)
  show ?case
  proof (cases "list_ex (sameEdge x) es")
    case True
    then obtain y where y: "y \<in> set es" "sameEdge x y" by (auto simp: list_ex_iff)
    from Cons.IH [OF y(1)] obtain y' where y': "y' \<in> set (dedupEdges es)" "sameEdge y y'" by blast
    show ?thesis
    proof (cases "e = x")
      case e: True
      from y(2) y'(2) have "sameEdge x y'" by (rule sameEdge_trans)
      with y'(1) e True show ?thesis by auto
    next
      case False
      with Cons.prems have "e \<in> set es" by simp
      from Cons.IH [OF this] True show ?thesis by simp
    qed
  next
    case False
    show ?thesis
    proof (cases "e = x")
      case True
      with False show ?thesis by auto
    next
      case ne: False
      with Cons.prems have "e \<in> set es" by simp
      from Cons.IH [OF this] False show ?thesis by auto
    qed
  qed
qed

lemma fold_pick_mem:
  "fold (\<lambda>x best. if P x best then x else best) xs c \<in> insert c (set xs)"
  by (induction xs arbitrary: c) auto

lemma canonicalVertex_mem: "canonicalVertex c \<in> set (equivalentVertices c)"
proof -
  have "c \<in> set (equivalentVertices c)"
    by (cases c) (simp add: equivalentVertices_def getEquivalentVerticesLocal.simps)
  with fold_pick_mem [of "\<lambda>x best. snd (snd x) < snd (snd best)" "equivalentVertices c" c]
  show ?thesis unfolding canonicalVertex_def by auto
qed

lemma canonicalVertex_class:
  "b \<in> set (equivalentVertices a) \<Longrightarrow> canonicalVertex b = canonicalVertex a"
  by (cases a; cases b)
     (auto simp: canonicalVertex_def equivalentVertices_def getEquivalentVerticesLocal.simps
           split: if_splits)

lemma canonicalVertex_idem: "canonicalVertex (canonicalVertex c) = canonicalVertex c"
  using canonicalVertex_class [OF canonicalVertex_mem] .

lemma canonicalVertex_lattice: "vertexLattice (canonicalVertex c) = vertexLattice c"
  using equivalentVertices_same_lattice [OF canonicalVertex_mem] .

lemma canonicalVertex_eq_iff:
  "canonicalVertex a = canonicalVertex b \<longleftrightarrow> b \<in> set (equivalentVertices a)"
proof
  assume eq: "canonicalVertex a = canonicalVertex b"
  have 1: "canonicalVertex a \<in> set (equivalentVertices a)" by (rule canonicalVertex_mem)
  have "canonicalVertex a \<in> set (equivalentVertices b)" unfolding eq by (rule canonicalVertex_mem)
  then have 2: "b \<in> set (equivalentVertices (canonicalVertex a))" by (rule equivalentVertices_mem_sym)
  from 1 2 show "b \<in> set (equivalentVertices a)" by (rule equivalentVertices_trans)
next
  assume "b \<in> set (equivalentVertices a)"
  then show "canonicalVertex a = canonicalVertex b" by (simp add: canonicalVertex_class)
qed

lemma corner_inject:
  assumes "d < 6" "d' < 6" "canonicalVertex (q, r, d) = canonicalVertex (q, r, d')"
  shows "d = d'"
proof -
  have "vertexLattice (q, r, d) = vertexLattice (q, r, d')"
    using canonicalVertex_lattice [of "(q, r, d)"] canonicalVertex_lattice [of "(q, r, d')"] assms(3)
    by simp
  with assms(1,2) show ?thesis by (rule vertexLattice_same_hex)
qed

lemma findBuildingInfo_update_other:
  assumes "k \<notin> vertexKey ` set es"
  shows "findBuildingInfo (vs(k \<mapsto> v)) es = findBuildingInfo vs es"
  using assms by (induction es) (auto split: option.splits)

lemma findBuildingInfo_eq_None: 
  "findBuildingInfo vs es = None \<longleftrightarrow> (\<forall>e \<in> set es. \<forall>v. vs (vertexKey e) = Some v \<longrightarrow> building v = None)"
  by (induction es) (auto split: option.splits)

lemma findBuildingInfo_update_free:
  assumes "findBuildingInfo vs es = None" "e \<in> set es"
  shows "findBuildingInfo (vs(vertexKey e \<mapsto> \<lparr>building = Some b, owner = own\<rparr>)) es
           = Some (own, b, vertexKey e)"
  using assms
proof (induction es)
  case Nil
  then show ?case by simp
next
  case (Cons x es)
  from Cons.prems(1) have x: "\<forall>v. vs (vertexKey x) = Some v \<longrightarrow> building v = None"
    and rest: "findBuildingInfo vs es = None"
    by (auto split: option.splits)
  show ?case
  proof (cases "x = e")
    case True
    then show ?thesis by simp
  next
    case False
    with Cons.prems(2) have "e \<in> set es" by simp
    from Cons.IH [OF rest this] False x show ?thesis
      by (auto simp: vertexKey_inject split: option.splits)
  qed
qed

lemma nth_recomputeRoadLengths:
  "p < length (players g) \<Longrightarrow>
     recomputeRoadLengths g ! p = (players g ! p)\<lparr>roadLength := playerRoadLength g p\<rparr>"
  by (simp add: recomputeRoadLengths_def nth_enumerate_eq)

lemma length_recomputeRoadLengths [simp]: "length (recomputeRoadLengths g) = length (players g)"
  by (simp add: recomputeRoadLengths_def)

lemma nth_setLongestRoadBonus:
  "p < length ps \<Longrightarrow> roadLength (setLongestRoadBonus old new ps ! p) = roadLength (ps ! p)
     \<and> hasLongestRoad (setLongestRoadBonus old new ps ! p) = (new = Some p)"
  by (simp add: setLongestRoadBonus_def nth_enumerate_eq)

lemma length_setLongestRoadBonus [simp]: "length (setLongestRoadBonus old new ps) = length ps"
  by (simp add: setLongestRoadBonus_def)

lemma updateLongestRoad_roadLength:
  "p < length (players g) \<Longrightarrow>
     roadLength (players (updateLongestRoad g) ! p) = playerRoadLength g p"
  by (simp add: updateLongestRoad_def Let_def nth_setLongestRoadBonus nth_recomputeRoadLengths)

lemma updateLongestRoad_lens:
  "map roadLength (players (updateLongestRoad g)) = map roadLength (recomputeRoadLengths g)"
  by (rule nth_equalityI)
     (simp_all add: updateLongestRoad_def Let_def nth_setLongestRoadBonus)

lemma updateLongestRoad_holder:
  "longestRoadPlayer (updateLongestRoad g)
     = awardLongestRoad (map roadLength (recomputeRoadLengths g)) (longestRoadPlayer g)"
  by (simp add: updateLongestRoad_def Let_def)

lemma updateLongestRoad_length [simp]:
  "length (players (updateLongestRoad g)) = length (players g)"
  by (simp add: updateLongestRoad_def Let_def)

lemma maxList_nth_le: "i < length xs \<Longrightarrow> xs ! i \<le> maxList xs"
proof (induction xs arbitrary: i)
  case Nil
  then show ?case by simp
next
  case (Cons x xs)
  then show ?case by (cases i) (auto simp: max.coboundedI2)
qed

lemma maxList_attained: "xs \<noteq> [] \<Longrightarrow> \<exists>i < length xs. xs ! i = maxList xs"
proof (induction xs)
  case Nil
  then show ?case by simp
next
  case (Cons x xs)
  show ?case
  proof (cases "xs = []")
    case True
    then show ?thesis by simp
  next
    case False
    with Cons.IH obtain i where i: "i < length xs" "xs ! i = maxList xs" by blast
    show ?thesis
    proof (cases "maxList xs \<le> x")
      case True
      then have "(x # xs) ! 0 = maxList (x # xs)" by (simp add: max_def)
      then show ?thesis by blast
    next
      case False
      then have "(x # xs) ! Suc i = maxList (x # xs)" using i by (simp add: max_def)
      moreover have "Suc i < length (x # xs)" using i by simp
      ultimately show ?thesis by blast
    qed
  qed
qed

lemma strictlyLongest_Some_iff:
  "strictlyLongest lens = Some p
     \<longleftrightarrow> p < length lens \<and> (\<forall>q < length lens. q \<noteq> p \<longrightarrow> lens ! q < lens ! p)"
proof
  assume s: "strictlyLongest lens = Some p"
  let ?top = "filter (\<lambda>i. lens ! i = maxList lens) [0..<length lens]"
  from s have top: "?top = [p]"
    by (auto simp: strictlyLongest_def split: list.splits)
  then have "p \<in> set ?top" by simp
  then have p: "p < length lens" "lens ! p = maxList lens" by simp_all
  have "\<forall>q < length lens. q \<noteq> p \<longrightarrow> lens ! q < lens ! p"
  proof (intro allI impI)
    fix q assume q: "q < length lens" "q \<noteq> p"
    have "q \<notin> set ?top" unfolding top using q(2) by simp
    then have "lens ! q \<noteq> maxList lens" using q(1) by simp
    moreover have "lens ! q \<le> maxList lens" using q(1) by (rule maxList_nth_le)
    ultimately show "lens ! q < lens ! p" using p(2) by simp
  qed
  with p(1) show "p < length lens \<and> (\<forall>q < length lens. q \<noteq> p \<longrightarrow> lens ! q < lens ! p)" by simp
next
  assume a: "p < length lens \<and> (\<forall>q < length lens. q \<noteq> p \<longrightarrow> lens ! q < lens ! p)"
  then have p: "p < length lens" and lt: "\<And>q. q < length lens \<Longrightarrow> q \<noteq> p \<Longrightarrow> lens ! q < lens ! p"
    by simp_all
  from p have "lens \<noteq> []" by auto
  then obtain i where i: "i < length lens" "lens ! i = maxList lens" using maxList_attained by blast
  have top: "lens ! p = maxList lens"
  proof (cases "i = p")
    case True
    with i show ?thesis by simp
  next
    case False
    from lt [OF i(1) False] maxList_nth_le [OF p] i(2) show ?thesis by simp
  qed
  have "filter (\<lambda>i. lens ! i = maxList lens) [0..<length lens] = [p]"
  proof (rule filter_single)
    show "distinct [0..<length lens]" by simp
    show "p \<in> set [0..<length lens]" using p by simp
    show "lens ! p = maxList lens" by (rule top)
    fix y assume y: "y \<in> set [0..<length lens]" "lens ! y = maxList lens"
    show "y = p"
    proof (rule ccontr)
      assume "y \<noteq> p"
      with lt [of y] y(1) have "lens ! y < lens ! p" by simp
      with y(2) top show False by simp
    qed
  qed
  then show "strictlyLongest lens = Some p" by (simp add: strictlyLongest_def)
qed

lemma challenger_Some_iff:
  "challenger lens = Some p
     \<longleftrightarrow> p < length lens \<and> 5 \<le> lens ! p \<and> (\<forall>q < length lens. q \<noteq> p \<longrightarrow> lens ! q < lens ! p)"
proof (cases "strictlyLongest lens")
  case None
  then have "\<not> (p < length lens \<and> (\<forall>q < length lens. q \<noteq> p \<longrightarrow> lens ! q < lens ! p))"
    using strictlyLongest_Some_iff [of lens p] by simp
  then show ?thesis using None by (auto simp: challenger_def)
next
  case (Some s)
  show ?thesis
  proof (cases "s = p")
    case True
    with Some strictlyLongest_Some_iff [of lens p] show ?thesis by (auto simp: challenger_def)
  next
    case False
    with Some have "strictlyLongest lens \<noteq> Some p" by simp
    then have "\<not> (p < length lens \<and> (\<forall>q < length lens. q \<noteq> p \<longrightarrow> lens ! q < lens ! p))"
      using strictlyLongest_Some_iff [of lens p] by simp
    then show ?thesis using Some False by (auto simp: challenger_def)
  qed
qed

lemma maximal_iff: "i < length lens \<Longrightarrow> lens ! i = maxList lens \<longleftrightarrow> (\<forall>q < length lens. lens ! q \<le> lens ! i)"
proof
  assume "i < length lens" "lens ! i = maxList lens"
  then show "\<forall>q < length lens. lens ! q \<le> lens ! i" by (simp add: maxList_nth_le)
next
  assume i: "i < length lens" and le: "\<forall>q < length lens. lens ! q \<le> lens ! i"
  from i have "lens \<noteq> []" by auto
  then obtain j where j: "j < length lens" "lens ! j = maxList lens" using maxList_attained by blast
  with le have "maxList lens \<le> lens ! i" by auto
  with maxList_nth_le [OF i] show "lens ! i = maxList lens" by simp
qed

text \<open>The award rule on a list of lengths.\<close>

lemma award_strictly_longest:
  assumes "p < length lens" "5 \<le> lens ! p" "\<forall>q < length lens. q \<noteq> p \<longrightarrow> lens ! q < lens ! p"
  shows "awardLongestRoad lens holder = Some p"
proof -
  have ch: "challenger lens = Some p" using assms by (simp add: challenger_Some_iff)
  show ?thesis
  proof (cases holder)
    case None
    then show ?thesis by (simp add: awardLongestRoad_def ch)
  next
    case (Some h)
    show ?thesis
    proof (cases "h < length lens \<and> 5 \<le> lens ! h \<and> lens ! h = maxList lens")
      case False
      then show ?thesis using Some ch by (auto simp: awardLongestRoad_def)
    next
      case True
      then have "\<forall>q < length lens. lens ! q \<le> lens ! h" using maximal_iff [of h lens] by blast
      with assms(1) have "lens ! p \<le> lens ! h" by simp
      with assms(3) True have "h = p" by (metis not_less)
      then show ?thesis using Some True by (simp add: awardLongestRoad_def)
    qed
  qed
qed

lemma award_holder_keeps:
  assumes "h < length lens" "5 \<le> lens ! h" "\<forall>q < length lens. lens ! q \<le> lens ! h"
  shows "awardLongestRoad lens (Some h) = Some h"
  using assms by (simp add: awardLongestRoad_def maximal_iff)

lemma award_qualifies:
  assumes "awardLongestRoad lens holder = Some p"
  shows "p < length lens \<and> 5 \<le> lens ! p \<and> (\<forall>q < length lens. lens ! q \<le> lens ! p)"
proof (cases "challenger lens = Some p")
  case True
  then have p: "p < length lens" "5 \<le> lens ! p" "\<forall>q < length lens. q \<noteq> p \<longrightarrow> lens ! q < lens ! p"
    by (simp_all add: challenger_Some_iff)
  have "\<forall>q < length lens. lens ! q \<le> lens ! p"
  proof (intro allI impI)
    fix q assume "q < length lens"
    with p(3) show "lens ! q \<le> lens ! p" by (cases "q = p") (auto simp: less_imp_le)
  qed
  with p show ?thesis by simp
next
  case False
  with assms obtain h where h: "holder = Some h" "h < length lens" "5 \<le> lens ! h" "lens ! h = maxList lens" "p = h"
    by (auto simp: awardLongestRoad_def split: option.splits if_splits)
  from h(2,4) have "\<forall>q < length lens. lens ! q \<le> lens ! h" using maximal_iff [of h lens] by blast
  with h show ?thesis by simp
qed

lemma award_transfer:
  assumes "awardLongestRoad lens (Some h) = Some p" "p \<noteq> h" "h < length lens"
  shows "lens ! h < lens ! p"
proof -
  have keep: "\<not> (5 \<le> lens ! h \<and> lens ! h = maxList lens)"
    using assms by (auto simp: awardLongestRoad_def split: if_splits)
  from assms(1) have q: "p < length lens" "5 \<le> lens ! p" "\<forall>q < length lens. lens ! q \<le> lens ! p"
    using award_qualifies by blast+
  from q(3) assms(3) have le: "lens ! h \<le> lens ! p" by simp
  show ?thesis
  proof (rule ccontr)
    assume "\<not> lens ! h < lens ! p"
    with le have eq: "lens ! h = lens ! p" by simp
    with q(3) have "\<forall>q < length lens. lens ! q \<le> lens ! h" by simp
    with assms(3) have "lens ! h = maxList lens" by (simp add: maximal_iff)
    with keep eq q(2) show False by simp
  qed
qed

lemma award_tie_without_holder:
  assumes "p < length lens" "q < length lens" "p \<noteq> q" "lens ! p = lens ! q"
    "\<forall>i < length lens. lens ! i \<le> lens ! p"
  shows "awardLongestRoad lens None = None"
proof (rule ccontr)
  assume "awardLongestRoad lens None \<noteq> None"
  then obtain w where w: "challenger lens = Some w" by (auto simp: awardLongestRoad_def)
  then have lt: "\<forall>i < length lens. i \<noteq> w \<longrightarrow> lens ! i < lens ! w" and wl: "w < length lens"
    by (simp_all add: challenger_Some_iff)
  show False
  proof (cases "w = p")
    case True
    with lt assms(2,3,4) show False by auto
  next
    case False
    with lt assms(1) have "lens ! p < lens ! w" by simp
    with assms(5) wl show False by (auto simp: not_less [symmetric])
  qed
qed

lemma lengthAfter_nth:
  "i < length (players g) \<Longrightarrow> map roadLength (recomputeRoadLengths g) ! i = lengthAfter g i"
  by (simp add: lengthAfter_def updateLongestRoad_roadLength nth_recomputeRoadLengths)

lemma updateLongestRoad_flag:
  "i < length (players g) \<Longrightarrow>
     hasLongestRoad (players (updateLongestRoad g) ! i) \<longleftrightarrow> longestRoadPlayer (updateLongestRoad g) = Some i"
  by (simp add: updateLongestRoad_def Let_def nth_setLongestRoadBonus)

text \<open>
  Claim C1. After \<open>updateLongestRoad\<close>, with \<open>lengthAfter g i\<close> the road length it has stored
  for player \<open>i\<close>: a player whose length is at least 5 and strictly greater than every
  other length holds the bonus; a holder whose length is at least 5 and not exceeded keeps
  it, also when others have tied; the bonus passes from a holder to another player only if
  that player's length is strictly greater than the holder's; with no holder and two
  players tied for the greatest length, nobody holds it. Whoever holds the bonus afterwards
  has a length of at least 5 that no length exceeds, so that a holder below 5 loses it;
  and the flag \<open>hasLongestRoad\<close> of a player says whether that player is the holder.
\<close>

theorem longest_road_award:
  "(\<forall>p < length (players g).
       5 \<le> lengthAfter g p \<and> (\<forall>q < length (players g). q \<noteq> p \<longrightarrow> lengthAfter g q < lengthAfter g p)
       \<longrightarrow> longestRoadPlayer (updateLongestRoad g) = Some p)
   \<and> (\<forall>h < length (players g).
       longestRoadPlayer g = Some h \<and> 5 \<le> lengthAfter g h
         \<and> (\<forall>q < length (players g). lengthAfter g q \<le> lengthAfter g h)
       \<longrightarrow> longestRoadPlayer (updateLongestRoad g) = Some h)
   \<and> (\<forall>h < length (players g). \<forall>p.
       longestRoadPlayer g = Some h \<and> longestRoadPlayer (updateLongestRoad g) = Some p \<and> p \<noteq> h
       \<longrightarrow> lengthAfter g h < lengthAfter g p)
   \<and> (\<forall>p < length (players g). \<forall>q < length (players g).
       longestRoadPlayer g = None \<and> p \<noteq> q \<and> lengthAfter g p = lengthAfter g q
         \<and> (\<forall>i < length (players g). lengthAfter g i \<le> lengthAfter g p)
       \<longrightarrow> longestRoadPlayer (updateLongestRoad g) = None)
   \<and> (\<forall>p. longestRoadPlayer (updateLongestRoad g) = Some p
       \<longrightarrow> p < length (players g) \<and> 5 \<le> lengthAfter g p
           \<and> (\<forall>q < length (players g). lengthAfter g q \<le> lengthAfter g p))
   \<and> (\<forall>i < length (players g).
       hasLongestRoad (players (updateLongestRoad g) ! i) \<longleftrightarrow> longestRoadPlayer (updateLongestRoad g) = Some i)"
proof -
  let ?lens = "map roadLength (recomputeRoadLengths g)"
  let ?n = "length (players g)"
  have len: "length ?lens = ?n" by simp
  have nth: "\<And>i. i < ?n \<Longrightarrow> ?lens ! i = lengthAfter g i" by (rule lengthAfter_nth)
  have new: "longestRoadPlayer (updateLongestRoad g) = awardLongestRoad ?lens (longestRoadPlayer g)"
    by (rule updateLongestRoad_holder)
  have 1: "\<forall>p < ?n.
       5 \<le> lengthAfter g p \<and> (\<forall>q < ?n. q \<noteq> p \<longrightarrow> lengthAfter g q < lengthAfter g p)
       \<longrightarrow> longestRoadPlayer (updateLongestRoad g) = Some p"
  proof (intro allI impI)
    fix p assume p: "p < ?n"
      and a: "5 \<le> lengthAfter g p \<and> (\<forall>q < ?n. q \<noteq> p \<longrightarrow> lengthAfter g q < lengthAfter g p)"
    have "awardLongestRoad ?lens (longestRoadPlayer g) = Some p"
    proof (rule award_strictly_longest)
      show "p < length ?lens" using p by simp
      show "5 \<le> ?lens ! p" using a p by (simp only: nth)
      show "\<forall>q < length ?lens. q \<noteq> p \<longrightarrow> ?lens ! q < ?lens ! p"
        unfolding len using a p by (auto simp only: nth)
    qed
    then show "longestRoadPlayer (updateLongestRoad g) = Some p" by (simp only: new)
  qed
  have 2: "\<forall>h < ?n.
       longestRoadPlayer g = Some h \<and> 5 \<le> lengthAfter g h \<and> (\<forall>q < ?n. lengthAfter g q \<le> lengthAfter g h)
       \<longrightarrow> longestRoadPlayer (updateLongestRoad g) = Some h"
  proof (intro allI impI)
    fix h assume h: "h < ?n"
      and a: "longestRoadPlayer g = Some h \<and> 5 \<le> lengthAfter g h \<and> (\<forall>q < ?n. lengthAfter g q \<le> lengthAfter g h)"
    have "awardLongestRoad ?lens (Some h) = Some h"
    proof (rule award_holder_keeps)
      show "h < length ?lens" using h by simp
      show "5 \<le> ?lens ! h" using a h by (simp only: nth)
      show "\<forall>q < length ?lens. ?lens ! q \<le> ?lens ! h"
        unfolding len using a h by (auto simp only: nth)
    qed
    then show "longestRoadPlayer (updateLongestRoad g) = Some h" using a by (simp only: new)
  qed
  have 3: "\<forall>h < ?n. \<forall>p.
       longestRoadPlayer g = Some h \<and> longestRoadPlayer (updateLongestRoad g) = Some p \<and> p \<noteq> h
       \<longrightarrow> lengthAfter g h < lengthAfter g p"
  proof (intro allI impI)
    fix h p assume h: "h < ?n"
      and a: "longestRoadPlayer g = Some h \<and> longestRoadPlayer (updateLongestRoad g) = Some p \<and> p \<noteq> h"
    from a have hold: "longestRoadPlayer g = Some h"
      and res: "longestRoadPlayer (updateLongestRoad g) = Some p" by simp_all
    from res have aw: "awardLongestRoad ?lens (Some h) = Some p" unfolding new hold .
    from award_qualifies [OF aw] have p: "p < ?n" by simp
    have hl: "h < length ?lens" using h by simp
    from a have ne: "p \<noteq> h" by simp
    from award_transfer [OF aw ne hl] show "lengthAfter g h < lengthAfter g p"
      using h p by (simp only: nth)
  qed
  have 4: "\<forall>p < ?n. \<forall>q < ?n.
       longestRoadPlayer g = None \<and> p \<noteq> q \<and> lengthAfter g p = lengthAfter g q
         \<and> (\<forall>i < ?n. lengthAfter g i \<le> lengthAfter g p)
       \<longrightarrow> longestRoadPlayer (updateLongestRoad g) = None"
  proof (intro allI impI)
    fix p q assume p: "p < ?n" and q: "q < ?n"
      and a: "longestRoadPlayer g = None \<and> p \<noteq> q \<and> lengthAfter g p = lengthAfter g q
         \<and> (\<forall>i < ?n. lengthAfter g i \<le> lengthAfter g p)"
    have "awardLongestRoad ?lens None = None"
    proof (rule award_tie_without_holder)
      show "p < length ?lens" using p by simp
      show "q < length ?lens" using q by simp
      show "p \<noteq> q" using a by simp
      show "?lens ! p = ?lens ! q" using a p q by (simp only: nth)
      show "\<forall>i < length ?lens. ?lens ! i \<le> ?lens ! p"
        unfolding len using a p by (auto simp only: nth)
    qed
    then show "longestRoadPlayer (updateLongestRoad g) = None" using a by (simp only: new)
  qed
  have 5: "\<forall>p. longestRoadPlayer (updateLongestRoad g) = Some p
       \<longrightarrow> p < ?n \<and> 5 \<le> lengthAfter g p \<and> (\<forall>q < ?n. lengthAfter g q \<le> lengthAfter g p)"
  proof (intro allI impI)
    fix p assume "longestRoadPlayer (updateLongestRoad g) = Some p"
    then have aw: "awardLongestRoad ?lens (longestRoadPlayer g) = Some p" by (simp only: new)
    from award_qualifies [OF aw]
    have all: "p < length ?lens \<and> 5 \<le> ?lens ! p \<and> (\<forall>q < length ?lens. ?lens ! q \<le> ?lens ! p)" .
    from all have p: "p < ?n" unfolding len by (rule conjunct1)
    from all have five: "5 \<le> ?lens ! p" by blast
    from all have top: "\<forall>q < ?n. ?lens ! q \<le> ?lens ! p" unfolding len by blast
    have "5 \<le> lengthAfter g p" using five p by (simp only: nth)
    moreover have "\<forall>q < ?n. lengthAfter g q \<le> lengthAfter g p"
    proof (intro allI impI)
      fix q assume q: "q < ?n"
      with top have "?lens ! q \<le> ?lens ! p" by blast
      then show "lengthAfter g q \<le> lengthAfter g p" using p q by (simp only: nth)
    qed
    ultimately show "p < ?n \<and> 5 \<le> lengthAfter g p \<and> (\<forall>q < ?n. lengthAfter g q \<le> lengthAfter g p)"
      using p by blast
  qed
  have 6: "\<forall>i < ?n.
       hasLongestRoad (players (updateLongestRoad g) ! i) \<longleftrightarrow> longestRoadPlayer (updateLongestRoad g) = Some i"
    by (simp add: updateLongestRoad_flag)
  show ?thesis by (intro conjI; fact 1 2 3 4 5 6)
qed

text \<open>
  Three races between a road of five around one hex and a road around another: the holder
  keeps the bonus on a tie at 5, nobody gets it on a tie at 5 without a holder, and a road of
  6 takes it from the holder.
\<close>

theorem longest_road_award_witness:
  "lengthAfter (roadRace (Some 0) 5) 0 = 5 \<and> lengthAfter (roadRace (Some 0) 5) 1 = 5
   \<and> longestRoadPlayer (updateLongestRoad (roadRace (Some 0) 5)) = Some 0
   \<and> longestRoadPlayer (updateLongestRoad (roadRace None 5)) = None
   \<and> lengthAfter (roadRace (Some 0) 6) 0 = 5 \<and> lengthAfter (roadRace (Some 0) 6) 1 = 6
   \<and> longestRoadPlayer (updateLongestRoad (roadRace (Some 0) 6)) = Some 1"
proof -
  have two: "\<And>holder k. length (players (roadRace holder k)) = 2" by (simp add: roadRace_def)
  have hold: "\<And>holder k. longestRoadPlayer (roadRace holder k) = holder" by (simp add: roadRace_def)
  have a0: "lengthAfter (roadRace (Some 0) 5) 0 = 5" by code_simp
  have a1: "lengthAfter (roadRace (Some 0) 5) 1 = 5" by code_simp
  have b0: "lengthAfter (roadRace None 5) 0 = 5" by code_simp
  have b1: "lengthAfter (roadRace None 5) 1 = 5" by code_simp
  have c0: "lengthAfter (roadRace (Some 0) 6) 0 = 5" by code_simp
  have c1: "lengthAfter (roadRace (Some 0) 6) 1 = 6" by code_simp
  note s1 = a1 [unfolded One_nat_def] b1 [unfolded One_nat_def] c1 [unfolded One_nat_def]
  have keep: "longestRoadPlayer (updateLongestRoad (roadRace (Some 0) 5)) = Some 0"
  proof -
    have top: "\<forall>q < length (players (roadRace (Some 0) 5)).
        lengthAfter (roadRace (Some 0) 5) q \<le> lengthAfter (roadRace (Some 0) 5) 0"
    proof (intro allI impI)
      fix q :: nat assume "q < length (players (roadRace (Some 0) 5))"
      then have "q = 0 \<or> q = 1" unfolding two by arith
      then show "lengthAfter (roadRace (Some 0) 5) q \<le> lengthAfter (roadRace (Some 0) 5) 0"
        using a0 a1 by auto
    qed
    from longest_road_award [of "roadRace (Some 0) 5", THEN conjunct2, THEN conjunct1]
    have "\<forall>h < length (players (roadRace (Some 0) 5)).
       longestRoadPlayer (roadRace (Some 0) 5) = Some h \<and> 5 \<le> lengthAfter (roadRace (Some 0) 5) h
         \<and> (\<forall>q < length (players (roadRace (Some 0) 5)).
               lengthAfter (roadRace (Some 0) 5) q \<le> lengthAfter (roadRace (Some 0) 5) h)
       \<longrightarrow> longestRoadPlayer (updateLongestRoad (roadRace (Some 0) 5)) = Some h" .
    then have "0 < length (players (roadRace (Some 0) 5)) \<longrightarrow>
       longestRoadPlayer (roadRace (Some 0) 5) = Some 0 \<and> 5 \<le> lengthAfter (roadRace (Some 0) 5) 0
         \<and> (\<forall>q < length (players (roadRace (Some 0) 5)).
               lengthAfter (roadRace (Some 0) 5) q \<le> lengthAfter (roadRace (Some 0) 5) 0)
       \<longrightarrow> longestRoadPlayer (updateLongestRoad (roadRace (Some 0) 5)) = Some 0"
      by blast
    moreover have "0 < length (players (roadRace (Some 0) 5))" unfolding two by simp
    moreover have "longestRoadPlayer (roadRace (Some 0) 5) = Some 0" by (rule hold)
    moreover have "5 \<le> lengthAfter (roadRace (Some 0) 5) 0" unfolding a0 by simp
    ultimately show ?thesis using top by blast
  qed
  have tie: "longestRoadPlayer (updateLongestRoad (roadRace None 5)) = None"
  proof -
    have top: "\<forall>i < length (players (roadRace None 5)).
        lengthAfter (roadRace None 5) i \<le> lengthAfter (roadRace None 5) 0"
    proof (intro allI impI)
      fix i :: nat assume "i < length (players (roadRace None 5))"
      then have "i = 0 \<or> i = 1" unfolding two by arith
      then show "lengthAfter (roadRace None 5) i \<le> lengthAfter (roadRace None 5) 0"
        using b0 b1 by auto
    qed
    from longest_road_award [of "roadRace None 5", THEN conjunct2, THEN conjunct2, THEN conjunct2, THEN conjunct1]
    have "\<forall>p < length (players (roadRace None 5)). \<forall>q < length (players (roadRace None 5)).
       longestRoadPlayer (roadRace None 5) = None \<and> p \<noteq> q
         \<and> lengthAfter (roadRace None 5) p = lengthAfter (roadRace None 5) q
         \<and> (\<forall>i < length (players (roadRace None 5)).
               lengthAfter (roadRace None 5) i \<le> lengthAfter (roadRace None 5) p)
       \<longrightarrow> longestRoadPlayer (updateLongestRoad (roadRace None 5)) = None" .
    then have "0 < (2::nat) \<longrightarrow> 1 < (2::nat) \<longrightarrow>
       longestRoadPlayer (roadRace None 5) = None \<and> (0::nat) \<noteq> 1
         \<and> lengthAfter (roadRace None 5) 0 = lengthAfter (roadRace None 5) 1
         \<and> (\<forall>i < length (players (roadRace None 5)).
               lengthAfter (roadRace None 5) i \<le> lengthAfter (roadRace None 5) 0)
       \<longrightarrow> longestRoadPlayer (updateLongestRoad (roadRace None 5)) = None"
      unfolding two by blast
    moreover have "longestRoadPlayer (roadRace None 5) = None" by (rule hold)
    moreover have "lengthAfter (roadRace None 5) 0 = lengthAfter (roadRace None 5) 1"
      unfolding b0 b1 by (rule refl)
    moreover have "(0::nat) \<noteq> 1" "0 < (2::nat)" "1 < (2::nat)" by simp_all
    ultimately show ?thesis using top by blast
  qed
  have pass: "longestRoadPlayer (updateLongestRoad (roadRace (Some 0) 6)) = Some 1"
  proof -
    have less: "\<forall>q < length (players (roadRace (Some 0) 6)). q \<noteq> 1 \<longrightarrow>
        lengthAfter (roadRace (Some 0) 6) q < lengthAfter (roadRace (Some 0) 6) 1"
    proof (intro allI impI)
      fix q :: nat assume "q < length (players (roadRace (Some 0) 6))" and ne: "q \<noteq> 1"
      then have "q = 0" unfolding two by arith
      then show "lengthAfter (roadRace (Some 0) 6) q < lengthAfter (roadRace (Some 0) 6) 1"
        by (simp add: c0 s1)
    qed
    from longest_road_award [of "roadRace (Some 0) 6", THEN conjunct1]
    have "\<forall>p < length (players (roadRace (Some 0) 6)).
       5 \<le> lengthAfter (roadRace (Some 0) 6) p
         \<and> (\<forall>q < length (players (roadRace (Some 0) 6)). q \<noteq> p \<longrightarrow>
               lengthAfter (roadRace (Some 0) 6) q < lengthAfter (roadRace (Some 0) 6) p)
       \<longrightarrow> longestRoadPlayer (updateLongestRoad (roadRace (Some 0) 6)) = Some p" .
    then have "1 < length (players (roadRace (Some 0) 6)) \<longrightarrow>
       5 \<le> lengthAfter (roadRace (Some 0) 6) 1
         \<and> (\<forall>q < length (players (roadRace (Some 0) 6)). q \<noteq> 1 \<longrightarrow>
               lengthAfter (roadRace (Some 0) 6) q < lengthAfter (roadRace (Some 0) 6) 1)
       \<longrightarrow> longestRoadPlayer (updateLongestRoad (roadRace (Some 0) 6)) = Some 1"
      by blast
    moreover have "1 < length (players (roadRace (Some 0) 6))" unfolding two by simp
    moreover have "5 \<le> lengthAfter (roadRace (Some 0) 6) 1" unfolding c1 by simp
    ultimately show ?thesis using less by blast
  qed
  show ?thesis by (intro conjI; fact a0 a1 keep tie c0 c1 pass)
qed

end
